theory Spec2Isabelle
  imports Main "HOL-Library.Word" "HOL-Library.Multiset"
begin

section \<open>The block-production worker of srcd (package miner)\<close>

text \<open>
  The worker runs four goroutines (newWorkLoop, mainLoop, taskLoop, resultLoop) that
  talk over channels. Each loop body is sequential code; it is embedded here as a
  function on an explicit state. What a goroutine reads from the outside (the clock,
  the atomic running flag, an interrupt signal written by the scheduler, which branch
  of a select fires, what the consensus engine, the chain and the pool answer) is a
  parameter: the record \<open>backend\<close>. What it does to the outside (engine calls,
  a task sent on taskCh, Shift on the confirmation tracker, a sleep, a log line) is
  appended to a trace kept in the state. The functions seal, resultLoop, start, stop
  and close are left out: no property below is about them.
\<close>

subsection \<open>Data\<close>

type_synonym int32 = "32 word"
type_synonym int64 = "64 word"
type_synonym uint64 = "64 word"
type_synonym address = "160 word"
type_synonym hash = "256 word"

text \<open>A Go error value (only its message matters) and a run-time panic.\<close>

type_synonym error = string

datatype fault = NilDereference

text \<open>
  Modelled from the spec: types.Transaction is not among the sources. A transaction
  is what the worker and the ordering rule ask of it: its hash, its sender
  (types.Sender under the signer), its nonce and offered price, and tx.Protected().
\<close>

record transaction =
  tx_hash :: hash
  tx_from :: address
  tx_nonce :: uint64
  tx_price :: int
  tx_protected :: bool

text \<open>
  Modelled from the spec: types.Header and types.Block are not among the sources. The
  header has the fields that commitNewWork fills (parent hash, coinbase, number,
  timestamp, extra data; number and timestamp are big integers); a block is the
  header and the transactions that types.NewBlock is given.
\<close>

record header =
  ParentHash :: hash
  Coinbase :: address
  Number :: int
  Time :: int
  Extra :: "8 word list"

record block =
  block_header :: header
  block_txs :: "transaction list"

definition NewBlock :: "header \<Rightarrow> transaction list \<Rightarrow> block" where
  "NewBlock h ts = \<lparr>block_header = h, block_txs = ts\<rparr>"

text \<open>
  Modelled from the spec: types.Signer is not among the sources; the only signer the
  worker makes is the one of types.NewMasterSigner.
\<close>

datatype signer = MasterSigner

text \<open>The struct environment. tcount is a Go int (64 bits, wraps).\<close>

record environment =
  signer :: signer
  tcount :: int64
  header :: header
  txs :: "transaction list"

text \<open>The struct task; createdAt is kept as the clock reading in Unix seconds.\<close>

record task =
  block :: block
  createdAt :: int64

abbreviation commitInterruptNone :: int32 where "commitInterruptNone \<equiv> 0"
abbreviation commitInterruptNewHead :: int32 where "commitInterruptNewHead \<equiv> 1"
abbreviation commitInterruptResubmit :: int32 where "commitInterruptResubmit \<equiv> 2"

text \<open>
  The struct newWorkReq. A pointer to an int32 is an address of the signal store
  (a natural number), or None for nil.
\<close>

record newWorkReq =
  interrupt :: "nat option"
  noempty :: bool

subsection \<open>Effects and the outside world\<close>

datatype event =
    Slept int64
  | Logged string
  | PrepareCalled header
  | FinalizeCalled header "transaction list"
  | HookCalled
  | TaskSent task
  | Shifted uint64

text \<open>
  The collaborators and the schedule of one goroutine. \<open>Now\<close>, \<open>LoadRunning\<close> and
  \<open>TaskChReady\<close> are indexed by the number of outside reads made so far (the field
  \<open>tick\<close> of the worker): \<open>Now n\<close> is time.Now().Unix() at that read,
  \<open>LoadRunning n\<close> the value atomic.LoadInt32(&w.running) returns there, and
  \<open>TaskChReady n\<close> says whether the select in commit sends on taskCh (True) or
  takes the exitCh case (False). \<open>LoadInterrupt a k\<close> is what the k-th atomic load
  of the signal at address a returns during one run of commitTransactions.
\<close>

record backend =
  Prepare :: "header \<Rightarrow> error + header"
  Finalize :: "header \<Rightarrow> transaction list \<Rightarrow> error + block"
  CurrentBlock :: block
  Hash :: "block \<Rightarrow> hash"
  Pending :: "error + (address \<times> transaction list) list"
  Now :: "nat \<Rightarrow> int64"
  LoadRunning :: "nat \<Rightarrow> int32"
  TaskChReady :: "nat \<Rightarrow> bool"
  LoadInterrupt :: "nat \<Rightarrow> nat \<Rightarrow> int32"

text \<open>
  The struct worker, as far as the functions below touch it. The fields \<open>tick\<close>
  and \<open>events\<close> are the bookkeeping of the embedding: the position in the
  schedule and the trace of effects.
\<close>

record worker =
  current :: "environment option"
  coinbase :: address
  extra :: "8 word list"
  snapshotBlock :: "block option"
  fullTaskHook :: "unit option"
  tick :: nat
  events :: "event list"

definition emit :: "event \<Rightarrow> worker \<Rightarrow> worker" where
  "emit e w = w\<lparr>events := events w @ [e]\<rparr>"

definition isRunning :: "backend \<Rightarrow> worker \<Rightarrow> bool \<times> worker" where
  "isRunning b w = (LoadRunning b (tick w) = 1, w\<lparr>tick := Suc (tick w)\<rparr>)"

definition time_Now :: "backend \<Rightarrow> worker \<Rightarrow> int64 \<times> worker" where
  "time_Now b w = (Now b (tick w), w\<lparr>tick := Suc (tick w)\<rparr>)"

definition setCoinbase :: "address \<Rightarrow> worker \<Rightarrow> worker" where
  "setCoinbase addr w = w\<lparr>coinbase := addr\<rparr>"

definition setExtra :: "8 word list \<Rightarrow> worker \<Rightarrow> worker" where
  "setExtra ex w = w\<lparr>extra := ex\<rparr>"

definition pending :: "worker \<Rightarrow> block option" where
  "pending w = snapshotBlock w"

subsection \<open>The candidate source: transactions by price and nonce\<close>

text \<open>
  Modelled from the spec: types.TransactionsByPriceAndNonce with its constructor and
  Peek, Shift and Pop is not among the sources. The spec (4.3, step 7) groups the
  transactions by sender, orders each sender's transactions by ascending nonce, and
  always takes the next transaction from the sender that currently offers the highest
  price for its next eligible transaction; (4.4) a skipped transaction drops its
  sender, an applied one advances within the same sender. The source is a list of
  senders' queues, kept in descending order of the price of each queue's head.
\<close>

type_synonym TransactionsByPriceAndNonce = "transaction list list"

text \<open>
  Modelled from the spec: the price a queue offers (that of its next eligible
  transaction), and the insertion of a queue behind the queues that offer at least
  as much.
\<close>

definition head_price :: "transaction list \<Rightarrow> int" where
  "head_price q = (case q of [] \<Rightarrow> 0 | t # _ \<Rightarrow> tx_price t)"

fun push_by_price :: "transaction list \<Rightarrow> TransactionsByPriceAndNonce \<Rightarrow> TransactionsByPriceAndNonce" where
  "push_by_price q [] = [q]"
| "push_by_price q (r # rs) =
     (if head_price r < head_price q then q # r # rs else r # push_by_price q rs)"

text \<open>
  Modelled from the spec: the constructor. Each sender's transactions are ordered by
  ascending nonce, and the senders by descending price of their first transaction.
\<close>

definition NewTransactionsByPriceAndNonce ::
    "signer \<Rightarrow> (address \<times> transaction list) list \<Rightarrow> TransactionsByPriceAndNonce" where
  "NewTransactionsByPriceAndNonce s m =
     foldr push_by_price
       (filter (\<lambda>q. q \<noteq> []) (map (\<lambda>(a, q). sort_key (\<lambda>t. unat (tx_nonce t)) q) m)) []"

text \<open>
  Modelled from the spec: Peek is the next transaction of the sender that offers the
  highest price, Shift advances within that sender, Pop drops that sender.
\<close>

fun Peek :: "TransactionsByPriceAndNonce \<Rightarrow> transaction option" where
  "Peek ((t # q) # qs) = Some t"
| "Peek qs = None"

fun Shift :: "TransactionsByPriceAndNonce \<Rightarrow> TransactionsByPriceAndNonce" where
  "Shift ((t # q) # qs) = (if q = [] then qs else push_by_price q qs)"
| "Shift qs = qs"

fun Pop :: "TransactionsByPriceAndNonce \<Rightarrow> TransactionsByPriceAndNonce" where
  "Pop (q # qs) = qs"
| "Pop [] = []"

definition remaining :: "TransactionsByPriceAndNonce \<Rightarrow> nat" where
  "remaining ts = length (concat ts)"

lemma remaining_push_by_price: "remaining (push_by_price q qs) = length q + remaining qs"
  by (induction qs) (simp_all add: remaining_def)

lemma remaining_Shift: "Peek ts = Some t \<Longrightarrow> remaining (Shift ts) < remaining ts"
  by (cases ts rule: Peek.cases) (simp_all add: remaining_push_by_price, simp_all add: remaining_def)

lemma remaining_Pop: "Peek ts = Some t \<Longrightarrow> remaining (Pop ts) < remaining ts"
  by (cases ts rule: Peek.cases) (simp_all add: remaining_def)

subsection \<open>commitTransaction and commitTransactions\<close>

text \<open>
  commitTransaction appends to w.current.txs and returns nil; the application of the
  transaction to the state is commented out in the source. Dereferencing a nil
  w.current panics.
\<close>

definition commitTransaction :: "transaction \<Rightarrow> address \<Rightarrow> worker \<Rightarrow> fault + (error option \<times> worker)" where
  "commitTransaction tx cb w =
     (case current w of
        None \<Rightarrow> Inl NilDereference
      | Some env \<Rightarrow> Inr (None, w\<lparr>current := Some (env\<lparr>txs := txs env @ [tx]\<rparr>)\<rparr>))"

definition bump_tcount :: "worker \<Rightarrow> fault + worker" where
  "bump_tcount w =
     (case current w of
        None \<Rightarrow> Inl NilDereference
      | Some env \<Rightarrow> Inr (w\<lparr>current := Some (env\<lparr>tcount := tcount env + 1\<rparr>)\<rparr>))"

text \<open>
  One poll of the interrupt signal at the head of the loop: None when the loop goes
  on, Some r when it returns r. The source loads the signal twice, once for the test
  and once for the returned comparison; these are the loads k and k + 1 of the run.
\<close>

definition poll :: "backend \<Rightarrow> nat option \<Rightarrow> nat \<Rightarrow> bool option" where
  "poll b intr k =
     (case intr of
        None \<Rightarrow> None
      | Some a \<Rightarrow>
          if LoadInterrupt b a k \<noteq> commitInterruptNone
          then Some (LoadInterrupt b a (Suc k) = commitInterruptNewHead)
          else None)"

text \<open>
  The body of the for loop after the poll, for the candidate tx that Peek returned:
  a protected transaction is popped; any other is committed, tcount is incremented
  when commitTransaction returned nil, and the source is shifted either way.
\<close>

definition loop_body ::
    "address \<Rightarrow> transaction \<Rightarrow> worker \<times> TransactionsByPriceAndNonce \<Rightarrow>
     fault + (worker \<times> TransactionsByPriceAndNonce)" where
  "loop_body cb tx s =
     (case s of (w, ts) \<Rightarrow>
        if tx_protected tx then Inr (w, Pop ts)
        else (case commitTransaction tx cb w of
                Inl f \<Rightarrow> Inl f
              | Inr (err, w') \<Rightarrow>
                  (case err of
                     None \<Rightarrow> (case bump_tcount w' of Inl f \<Rightarrow> Inl f | Inr w'' \<Rightarrow> Inr (w'', Shift ts))
                   | Some e \<Rightarrow> Inr (w', Shift ts))))"

lemma loop_body_remaining:
  "Peek ts = Some tx \<Longrightarrow> loop_body cb tx (w, ts) = Inr (w', ts') \<Longrightarrow> remaining ts' < remaining ts"
  by (auto simp: loop_body_def remaining_Shift remaining_Pop
      split: if_splits sum.splits option.splits prod.splits)

function commitTransactions_loop ::
    "backend \<Rightarrow> address \<Rightarrow> nat option \<Rightarrow> nat \<Rightarrow> worker \<Rightarrow> TransactionsByPriceAndNonce \<Rightarrow>
     fault + (bool \<times> worker \<times> TransactionsByPriceAndNonce)" where
  "commitTransactions_loop b cb intr k w ts =
     (case poll b intr k of
        Some r \<Rightarrow> Inr (r, w, ts)
      | None \<Rightarrow>
          (case Peek ts of
             None \<Rightarrow> Inr (False, w, ts)
           | Some tx \<Rightarrow>
               (case loop_body cb tx (w, ts) of
                  Inl f \<Rightarrow> Inl f
                | Inr (w', ts') \<Rightarrow> commitTransactions_loop b cb intr (Suc k) w' ts')))"
  by pat_completeness auto
termination
  by (relation "measure (\<lambda>(b, cb, intr, k, w, ts). remaining ts)")
     (auto simp: loop_body_remaining)

declare commitTransactions_loop.simps [simp del]

text \<open>
  The state at the head of iteration n of a loop that no interrupt stops: None when
  the loop has ended before (the source ran dry, or the body panicked).
\<close>

fun advance :: "address \<Rightarrow> nat \<Rightarrow> worker \<times> TransactionsByPriceAndNonce \<Rightarrow>
    (worker \<times> TransactionsByPriceAndNonce) option" where
  "advance cb 0 s = Some s"
| "advance cb (Suc n) s =
     (case Peek (snd s) of
        None \<Rightarrow> None
      | Some tx \<Rightarrow> (case loop_body cb tx s of Inl f \<Rightarrow> None | Inr s' \<Rightarrow> advance cb n s'))"

definition commitTransactions ::
    "backend \<Rightarrow> TransactionsByPriceAndNonce \<Rightarrow> address \<Rightarrow> nat option \<Rightarrow> worker \<Rightarrow>
     fault + (bool \<times> worker \<times> TransactionsByPriceAndNonce)" where
  "commitTransactions b ts cb intr w =
     (if current w = None then Inr (True, w, ts)
      else commitTransactions_loop b cb intr 0 w ts)"

subsection \<open>makeCurrent, updateSnapshot and commit\<close>

definition makeCurrent :: "block \<Rightarrow> header \<Rightarrow> worker \<Rightarrow> error option \<times> worker" where
  "makeCurrent parent h w =
     (None, w\<lparr>current := Some \<lparr>signer = MasterSigner, tcount = 0, header = h, txs = []\<rparr>\<rparr>)"

definition updateSnapshot :: "worker \<Rightarrow> fault + worker" where
  "updateSnapshot w =
     (case current w of
        None \<Rightarrow> Inl NilDereference
      | Some env \<Rightarrow> Inr (w\<lparr>snapshotBlock := Some (NewBlock (header env) (txs env))\<rparr>))"

definition NumberU64 :: "block \<Rightarrow> uint64" where
  "NumberU64 blk = word_of_int (Number (block_header blk))"

text \<open>
  The body of \<open>if w.isRunning()\<close> in commit: the hook, then the select. The task
  (with its time.Now()) is built before the select chooses; Shift is called only when
  the send on taskCh went through.
\<close>

definition handoff :: "backend \<Rightarrow> unit option \<Rightarrow> block \<Rightarrow> worker \<Rightarrow> worker" where
  "handoff b interval blk w =
     (let w1 = (case interval of None \<Rightarrow> w | Some u \<Rightarrow> emit HookCalled w);
          (t, w2) = time_Now b w1;
          ready = TaskChReady b (tick w2);
          w3 = w2\<lparr>tick := Suc (tick w2)\<rparr>
      in if ready
         then emit (Shifted (NumberU64 blk - 1)) (emit (TaskSent \<lparr>block = blk, createdAt = t\<rparr>) w3)
         else emit (Logged ''Worker has exited'') w3)"

definition commit ::
    "backend \<Rightarrow> unit option \<Rightarrow> bool \<Rightarrow> int64 \<Rightarrow> worker \<Rightarrow> fault + (error option \<times> worker)" where
  "commit b interval update start w =
     (case current w of
        None \<Rightarrow> Inl NilDereference
      | Some env \<Rightarrow>
          (let w1 = emit (FinalizeCalled (header env) (txs env)) w in
           case Finalize b (header env) (txs env) of
             Inl err \<Rightarrow> Inr (Some err, w1)
           | Inr blk \<Rightarrow>
               (let (run, w2) = isRunning b w1;
                    w3 = (if run then handoff b interval blk w2 else w2)
                in if update
                   then (case updateSnapshot w3 of Inl f \<Rightarrow> Inl f | Inr w4 \<Rightarrow> Inr (None, w4))
                   else Inr (None, w3))))"

subsection \<open>commitNewWork\<close>

text \<open>
  tstamp is an int64; parent.Time() is a big.Int, compared exactly with tstart and
  then truncated by Int64() before the increment, which wraps.
\<close>

definition candidate_timestamp :: "int \<Rightarrow> int64 \<Rightarrow> int64" where
  "candidate_timestamp parent_time tstart =
     (if sint tstart \<le> parent_time then word_of_int parent_time + 1 else tstart)"

definition future_wait :: "int64 \<Rightarrow> int64 \<Rightarrow> worker \<Rightarrow> worker" where
  "future_wait tstamp now w =
     (if sint (now + 1) < sint tstamp
      then emit (Slept ((tstamp - now) * 1000000000)) (emit (Logged ''Mining too far in the future'') w)
      else w)"

text \<open>
  The tail of commitNewWork from the pool fetch on: an empty pool republishes the
  snapshot; otherwise the commit engine runs with the live interrupt and the full
  block is committed unless the engine reports true.
\<close>

definition fill_pending :: "backend \<Rightarrow> nat option \<Rightarrow> int64 \<Rightarrow> worker \<Rightarrow> fault + worker" where
  "fill_pending b intr tstart w =
     (case Pending b of
        Inl err \<Rightarrow> Inr (emit (Logged ''Failed to fetch pending transactions'') w)
      | Inr pend \<Rightarrow>
          if pend = [] then updateSnapshot w
          else (case current w of
                  None \<Rightarrow> Inl NilDereference
                | Some env \<Rightarrow>
                    (case commitTransactions b (NewTransactionsByPriceAndNonce (signer env) pend)
                            (coinbase w) intr w of
                       Inl f \<Rightarrow> Inl f
                     | Inr (aborted, w', ts') \<Rightarrow>
                         if aborted then Inr w'
                         else (case commit b (fullTaskHook w') True tstart w' of
                                 Inl f \<Rightarrow> Inl f
                               | Inr (err, w'') \<Rightarrow> Inr w''))))"

text \<open>The part of commitNewWork from engine.Prepare on, for the header built so far.\<close>

definition prepare_and_build ::
    "backend \<Rightarrow> nat option \<Rightarrow> bool \<Rightarrow> int64 \<Rightarrow> block \<Rightarrow> header \<Rightarrow> worker \<Rightarrow> fault + worker" where
  "prepare_and_build b intr ne tstart parent hdr w =
     (let w1 = emit (PrepareCalled hdr) w in
      case Prepare b hdr of
        Inl err \<Rightarrow> Inr (emit (Logged ''Failed to prepare header for mining'') w1)
      | Inr hdr' \<Rightarrow>
          (case makeCurrent parent hdr' w1 of
             (Some err, w2) \<Rightarrow> Inr (emit (Logged ''Failed to create mining context'') w2)
           | (None, w2) \<Rightarrow>
               (case (if \<not> ne then commit b None False tstart w2 else Inr (None, w2)) of
                  Inl f \<Rightarrow> Inl f
                | Inr (err, w3) \<Rightarrow> fill_pending b intr tstart w3)))"

definition commitNewWork :: "backend \<Rightarrow> nat option \<Rightarrow> bool \<Rightarrow> worker \<Rightarrow> fault + worker" where
  "commitNewWork b intr ne w =
     (let (tstart, w1) = time_Now b w;
          parent = CurrentBlock b;
          tstamp = candidate_timestamp (Time (block_header parent)) tstart;
          (now, w2) = time_Now b w1;
          w3 = future_wait tstamp now w2;
          hdr = \<lparr>ParentHash = Hash b parent, Coinbase = 0,
                 Number = Number (block_header parent) + 1,
                 Time = sint tstamp, Extra = extra w3\<rparr>;
          (run, w4) = isRunning b w3
      in if run
         then (if coinbase w4 = 0
               then Inr (emit (Logged ''Refusing to mine without coinbase'') w4)
               else prepare_and_build b intr ne tstart parent (hdr\<lparr>Coinbase := coinbase w4\<rparr>) w4)
         else prepare_and_build b intr ne tstart parent hdr w4)"

subsection \<open>mainLoop\<close>





subsection \<open>newWorkLoop\<close>

text \<open>
  The scheduler's local variable \<open>interrupt\<close> and the signals it allocated. A signal
  is an index into \<open>signals\<close>; new(int32) appends a zero cell and returns its index.
  The trace records the atomic store, the allocation, the send on newWorkCh and the
  timer reset in the order the closure \<open>recommit\<close> performs them.
\<close>

datatype sched_event = StoreInt32 nat int32 | NewInt32 nat | SentNewWork newWorkReq | TimerReset

record scheduler =
  cur_interrupt :: "nat option"
  signals :: "int32 list"
  sched_trace :: "sched_event list"

definition sched_emit :: "sched_event \<Rightarrow> scheduler \<Rightarrow> scheduler" where
  "sched_emit e st = st\<lparr>sched_trace := sched_trace st @ [e]\<rparr>"

definition stamp :: "int32 \<Rightarrow> scheduler \<Rightarrow> scheduler" where
  "stamp s st =
     (case cur_interrupt st of
        None \<Rightarrow> st
      | Some a \<Rightarrow> sched_emit (StoreInt32 a s) (st\<lparr>signals := (signals st)[a := s]\<rparr>))"

definition recommit :: "bool \<Rightarrow> int32 \<Rightarrow> scheduler \<Rightarrow> scheduler" where
  "recommit ne s st =
     (let st1 = stamp s st;
          a = length (signals st1);
          st2 = sched_emit (NewInt32 a) (st1\<lparr>signals := signals st1 @ [0], cur_interrupt := Some a\<rparr>);
          st3 = sched_emit (SentNewWork \<lparr>interrupt = Some a, noempty = ne\<rparr>) st2
      in sched_emit TimerReset st3)"

text \<open>The timer case carries the value that isRunning loads from w.running.\<close>

datatype sched_input = StartCh | ChainHeadCh | TimerC int32 | ExitCh

definition newWorkLoop_step :: "sched_input \<Rightarrow> scheduler \<Rightarrow> scheduler option" where
  "newWorkLoop_step inp st =
     (case inp of
        StartCh \<Rightarrow> Some (recommit False commitInterruptNewHead st)
      | ChainHeadCh \<Rightarrow> Some (recommit False commitInterruptNewHead st)
      | TimerC r \<Rightarrow> Some (if r = 1 then recommit True commitInterruptResubmit st else st)
      | ExitCh \<Rightarrow> None)"

fun newWorkLoop :: "sched_input list \<Rightarrow> scheduler \<Rightarrow> scheduler" where
  "newWorkLoop [] st = st"
| "newWorkLoop (inp # inps) st =
     (case newWorkLoop_step inp st of None \<Rightarrow> st | Some st' \<Rightarrow> newWorkLoop inps st')"

definition sched_init :: scheduler where
  "sched_init = \<lparr>cur_interrupt = None, signals = [], sched_trace = []\<rparr>"

subsection \<open>taskLoop\<close>

text \<open>
  The sealing loop's local variable \<open>stopCh\<close> and the channels it made: a channel is
  an index into \<open>closed\<close>, which holds True once the channel was closed. Closing a
  closed channel panics in Go.
\<close>

datatype seal_fault = CloseOfClosedChannel

datatype seal_event = NewTaskHookCalled task | CloseCh nat | MakeCh nat | GoSeal task nat

record sealer =
  stopCh :: "nat option"
  closed :: "bool list"
  seal_trace :: "seal_event list"

definition seal_emit :: "seal_event \<Rightarrow> sealer \<Rightarrow> sealer" where
  "seal_emit e st = st\<lparr>seal_trace := seal_trace st @ [e]\<rparr>"

definition interrupt_seal :: "sealer \<Rightarrow> seal_fault + sealer" where
  "interrupt_seal st =
     (case stopCh st of
        None \<Rightarrow> Inr st
      | Some c \<Rightarrow>
          if closed st ! c then Inl CloseOfClosedChannel
          else Inr (seal_emit (CloseCh c) (st\<lparr>closed := (closed st)[c := True], stopCh := None\<rparr>)))"

datatype seal_input = TaskCh task | SealExitCh

definition start_seal :: "task \<Rightarrow> sealer \<Rightarrow> sealer" where
  "start_seal t st =
     (let c = length (closed st);
          st1 = seal_emit (MakeCh c) (st\<lparr>closed := closed st @ [False], stopCh := Some c\<rparr>)
      in seal_emit (GoSeal t c) st1)"

text \<open>
  One iteration of the select loop. The flag of the result says whether the loop goes
  on (True) or has returned (False, after the exitCh case).
\<close>

definition taskLoop_step :: "unit option \<Rightarrow> seal_input \<Rightarrow> sealer \<Rightarrow> seal_fault + (bool \<times> sealer)" where
  "taskLoop_step newTaskHook inp st =
     (case inp of
        TaskCh t \<Rightarrow>
          (let st1 = (case newTaskHook of None \<Rightarrow> st | Some u \<Rightarrow> seal_emit (NewTaskHookCalled t) st) in
           case interrupt_seal st1 of
             Inl f \<Rightarrow> Inl f
           | Inr st2 \<Rightarrow> Inr (True, start_seal t st2))
      | SealExitCh \<Rightarrow>
          (case interrupt_seal st of Inl f \<Rightarrow> Inl f | Inr st1 \<Rightarrow> Inr (False, st1)))"

fun taskLoop :: "unit option \<Rightarrow> seal_input list \<Rightarrow> sealer \<Rightarrow> seal_fault + (bool \<times> sealer)" where
  "taskLoop hook [] st = Inr (True, st)"
| "taskLoop hook (inp # inps) st =
     (case taskLoop_step hook inp st of
        Inl f \<Rightarrow> Inl f
      | Inr (go, st') \<Rightarrow> if go then taskLoop hook inps st' else Inr (False, st'))"

definition seal_init :: sealer where
  "seal_init = \<lparr>stopCh = None, closed = [], seal_trace = []\<rparr>"

subsection \<open>Well-formed scheduler traces\<close>

text \<open>
  The order in which one request of the scheduler must come about, as an acceptor of
  traces. While a signal a is current, the only event accepted next is the store of
  a reason other than none into a; a signal is allocated only when no unstamped
  signal is current, at the next unused address n; the request sent next carries
  the signal just allocated.
\<close>

datatype sched_phase = Idle "nat option" | Stamped | Allocated nat | Sent nat

fun sched_step :: "sched_phase \<times> nat \<Rightarrow> sched_event \<Rightarrow> (sched_phase \<times> nat) option" where
  "sched_step (Idle (Some a), n) (StoreInt32 a' v) =
     (if a' = a \<and> v \<noteq> commitInterruptNone then Some (Stamped, n) else None)"
| "sched_step (Idle None, n) (NewInt32 a') = (if a' = n then Some (Allocated a', Suc n) else None)"
| "sched_step (Stamped, n) (NewInt32 a') = (if a' = n then Some (Allocated a', Suc n) else None)"
| "sched_step (Allocated a, n) (SentNewWork r) =
     (if interrupt r = Some a then Some (Sent a, n) else None)"
| "sched_step (Sent a, n) TimerReset = Some (Idle (Some a), n)"
| "sched_step s e = None"

fun sched_accepts :: "sched_phase \<times> nat \<Rightarrow> sched_event list \<Rightarrow> (sched_phase \<times> nat) option" where
  "sched_accepts s [] = Some s"
| "sched_accepts s (e # es) =
     (case sched_step s e of None \<Rightarrow> None | Some s' \<Rightarrow> sched_accepts s' es)"

fun requests :: "sched_event list \<Rightarrow> newWorkReq list" where
  "requests [] = []"
| "requests (SentNewWork r # es) = r # requests es"
| "requests (e # es) = requests es"

subsection \<open>Invariants of the two loops\<close>

text \<open>
  The scheduler: its trace is accepted and leaves the acceptor idle on the current
  signal; the k-th request carries the signal at address k; the current signal is the
  only one that still reads none. The sealing loop: the held channel is the only one
  not yet closed.
\<close>

definition sched_inv :: "scheduler \<Rightarrow> bool" where
  "sched_inv st \<longleftrightarrow>
     sched_accepts (Idle None, 0) (sched_trace st) = Some (Idle (cur_interrupt st), length (signals st)) \<and>
     map interrupt (requests (sched_trace st)) = map Some [0 ..< length (signals st)] \<and>
     (\<forall>a < length (signals st). (signals st ! a = commitInterruptNone) = (cur_interrupt st = Some a)) \<and>
     (\<forall>a. cur_interrupt st = Some a \<longrightarrow> a < length (signals st))"

definition seal_inv :: "sealer \<Rightarrow> bool" where
  "seal_inv st \<longleftrightarrow>
     (\<forall>c < length (closed st). (\<not> closed st ! c) = (stopCh st = Some c)) \<and>
     (\<forall>c. stopCh st = Some c \<longrightarrow> c < length (closed st))"

subsection \<open>The effects of commit and of a cycle, written out\<close>

text \<open>
  The events that the select of commit appends for the block blk, the events and the
  schedule positions of one call of commit, the log and sleep of the future-timestamp
  guard, the header that commitNewWork builds, and the worker when it reaches the
  coinbase guard. The lemmas below show that the functions above compute exactly
  these.
\<close>

definition handoff_events :: "backend \<Rightarrow> unit option \<Rightarrow> block \<Rightarrow> nat \<Rightarrow> event list" where
  "handoff_events b interval blk n =
     (case interval of None \<Rightarrow> [] | Some u \<Rightarrow> [HookCalled]) @
     (if TaskChReady b (Suc n)
      then [TaskSent \<lparr>block = blk, createdAt = Now b n\<rparr>, Shifted (NumberU64 blk - 1)]
      else [Logged ''Worker has exited''])"

definition commit_events :: "backend \<Rightarrow> unit option \<Rightarrow> environment \<Rightarrow> nat \<Rightarrow> event list" where
  "commit_events b interval env n =
     FinalizeCalled (header env) (txs env) #
     (case Finalize b (header env) (txs env) of
        Inl err \<Rightarrow> []
      | Inr blk \<Rightarrow> if LoadRunning b n = 1 then handoff_events b interval blk (Suc n) else [])"

definition commit_ticks :: "backend \<Rightarrow> environment \<Rightarrow> nat \<Rightarrow> nat" where
  "commit_ticks b env n =
     (case Finalize b (header env) (txs env) of
        Inl err \<Rightarrow> n
      | Inr blk \<Rightarrow> if LoadRunning b n = 1 then n + 3 else n + 1)"

definition wait_events :: "int64 \<Rightarrow> int64 \<Rightarrow> event list" where
  "wait_events tstamp now =
     (if sint (now + 1) < sint tstamp
      then [Logged ''Mining too far in the future'', Slept ((tstamp - now) * 1000000000)]
      else [])"

definition new_header :: "backend \<Rightarrow> worker \<Rightarrow> header" where
  "new_header b w =
     \<lparr>ParentHash = Hash b (CurrentBlock b),
      Coinbase = (if LoadRunning b (Suc (Suc (tick w))) = 1 then coinbase w else 0),
      Number = Number (block_header (CurrentBlock b)) + 1,
      Time = sint (candidate_timestamp (Time (block_header (CurrentBlock b))) (Now b (tick w))),
      Extra = extra w\<rparr>"

definition after_guard :: "backend \<Rightarrow> worker \<Rightarrow> worker" where
  "after_guard b w =
     w\<lparr>events := events w @
         wait_events (candidate_timestamp (Time (block_header (CurrentBlock b))) (Now b (tick w)))
           (Now b (Suc (tick w))),
       tick := Suc (Suc (Suc (tick w)))\<rparr>"

text \<open>
  An event that may follow engine.Prepare in a cycle whose prepared header is h:
  never a second Prepare nor a sleep; Finalize is called on h only; a task carries a
  block that Finalize returned for h.
\<close>

definition tail_ok :: "backend \<Rightarrow> header \<Rightarrow> event \<Rightarrow> bool" where
  "tail_ok b h e =
     (case e of
        PrepareCalled h' \<Rightarrow> False
      | Slept d \<Rightarrow> False
      | FinalizeCalled h' ts \<Rightarrow> h' = h
      | TaskSent t \<Rightarrow> (\<exists>ts. Finalize b h ts = Inr (block t))
      | _ \<Rightarrow> True)"

subsection \<open>A small configuration\<close>

text \<open>
  The worker as newWorker leaves it (every field at its zero value), three transactions
  of two senders, a protected one, a parent block, and a backend whose engine accepts
  every header and finalizes by NewBlock.
\<close>

definition newWorker :: worker where
  "newWorker = \<lparr>current = None, coinbase = 0, extra = [], snapshotBlock = None,
                 fullTaskHook = None, tick = 0, events = []\<rparr>"

definition tx_a1 :: transaction where
  "tx_a1 = \<lparr>tx_hash = 1, tx_from = 10, tx_nonce = 1, tx_price = 10, tx_protected = False\<rparr>"

definition tx_a2 :: transaction where
  "tx_a2 = \<lparr>tx_hash = 2, tx_from = 10, tx_nonce = 2, tx_price = 10, tx_protected = False\<rparr>"

definition tx_b1 :: transaction where
  "tx_b1 = \<lparr>tx_hash = 3, tx_from = 20, tx_nonce = 1, tx_price = 20, tx_protected = False\<rparr>"


definition parent0 :: block where
  "parent0 = \<lparr>block_header = \<lparr>ParentHash = 0, Coinbase = 0, Number = 7, Time = 100, Extra = []\<rparr>,
               block_txs = []\<rparr>"

definition header0 :: header where
  "header0 = \<lparr>ParentHash = 5, Coinbase = 0, Number = 8, Time = 1000, Extra = []\<rparr>"

definition env0 :: environment where
  "env0 = \<lparr>signer = MasterSigner, tcount = 0, header = header0, txs = []\<rparr>"

definition backend0 :: backend where
  "backend0 = \<lparr>Prepare = Inr, Finalize = (\<lambda>h ts. Inr (NewBlock h ts)), CurrentBlock = parent0,
                Hash = (\<lambda>blk. 5), Pending = Inr [(10, [tx_a1, tx_a2]), (20, [tx_b1])],
                Now = (\<lambda>n. 1000), LoadRunning = (\<lambda>n. 1), TaskChReady = (\<lambda>n. True),
                LoadInterrupt = (\<lambda>a k. 0)\<rparr>"

section \<open>Properties\<close>

subsection \<open>The commit engine on an existing environment\<close>

lemma loop_body_Some:
  "current w = Some env \<Longrightarrow>
   loop_body cb tx (w, ts) =
     Inr (if tx_protected tx then (w, Pop ts)
          else (w\<lparr>current := Some (env\<lparr>txs := txs env @ [tx], tcount := tcount env + 1\<rparr>)\<rparr>, Shift ts))"
  by (simp add: loop_body_def commitTransaction_def bump_tcount_def)

lemma mset_push_by_price: "mset (concat (push_by_price q qs)) = mset q + mset (concat qs)"
  by (induction qs) simp_all

lemma mset_Shift: "Peek ts = Some tx \<Longrightarrow> mset (concat ts) = {#tx#} + mset (concat (Shift ts))"
  by (cases ts rule: Peek.cases) (simp_all add: mset_push_by_price)

lemma mset_Pop: "mset (concat (Pop ts)) \<subseteq># mset (concat ts)"
  by (cases ts) simp_all

lemma mset_NewTransactionsByPriceAndNonce:
  "mset (concat (NewTransactionsByPriceAndNonce s m)) = mset (concat (map snd m))"
proof -
  have a: "mset (concat (foldr push_by_price qs [])) = mset (concat qs)" for qs
    by (induction qs) (simp_all add: mset_push_by_price)
  have b: "mset (concat (filter (\<lambda>q. q \<noteq> []) qs)) = mset (concat qs)" for qs :: "transaction list list"
    by (induction qs) simp_all
  have c: "mset (concat (map (\<lambda>(a, q). sort_key f q) m)) = mset (concat (map snd m))"
    for f :: "transaction \<Rightarrow> nat"
    by (induction m) (auto)
  show ?thesis
    unfolding NewTransactionsByPriceAndNonce_def by (simp only: a b c)
qed

lemma current_update_same: "current w = Some env \<Longrightarrow> w\<lparr>current := Some env\<rparr> = w"
  by simp

text \<open>
  On an existing environment the loop returns (no panic), changes nothing of the
  worker but w.current, keeps the environment's header and signer, and only appends
  unprotected candidates of the source to its transaction list. With a nil interrupt
  it returns false and leaves the source dry.
\<close>

lemma loop_total:
  "current w = Some env \<Longrightarrow>
   \<exists>r env' ts' added.
     commitTransactions_loop b cb intr k w ts = Inr (r, w\<lparr>current := Some env'\<rparr>, ts') \<and>
     header env' = header env \<and> signer env' = signer env \<and>
     txs env' = txs env @ added \<and>
     mset added + mset (concat ts') \<subseteq># mset (concat ts) \<and>
     (\<forall>t \<in> set added. \<not> tx_protected t) \<and>
     (intr = None \<longrightarrow> \<not> r \<and> Peek ts' = None)"
proof (induction b cb intr k w ts arbitrary: env rule: commitTransactions_loop.induct)
  case (1 b cb intr k w ts)
  show ?case
  proof (cases "poll b intr k")
    case (Some r)
    then obtain a where ia: "intr = Some a" by (auto simp: poll_def split: option.splits)
    have "commitTransactions_loop b cb intr k w ts = Inr (r, w\<lparr>current := Some env\<rparr>, ts)"
      by (subst commitTransactions_loop.simps) (simp add: Some current_update_same [OF 1(2)])
    moreover have "mset [] + mset (concat ts) \<subseteq># mset (concat ts)" by simp
    ultimately show ?thesis
      using ia by (intro exI [of _ r] exI [of _ env] exI [of _ ts] exI [of _ "[]"]) simp
  next
    case None
    show ?thesis
    proof (cases "Peek ts")
      case pn: None
      have "commitTransactions_loop b cb intr k w ts = Inr (False, w\<lparr>current := Some env\<rparr>, ts)"
        by (subst commitTransactions_loop.simps) (simp add: None pn current_update_same [OF 1(2)])
      then show ?thesis
        using pn by (intro exI [of _ False] exI [of _ env] exI [of _ ts] exI [of _ "[]"]) simp
    next
      case (Some tx)
      define w1 where "w1 = (if tx_protected tx then w
         else w\<lparr>current := Some (env\<lparr>txs := txs env @ [tx], tcount := tcount env + 1\<rparr>)\<rparr>)"
      define ts1 where "ts1 = (if tx_protected tx then Pop ts else Shift ts)"
      define env1 where "env1 = (if tx_protected tx then env
         else env\<lparr>txs := txs env @ [tx], tcount := tcount env + 1\<rparr>)"
      have lb: "loop_body cb tx (w, ts) = Inr (w1, ts1)"
        using loop_body_Some [OF 1(2), of cb tx ts] by (simp add: w1_def ts1_def)
      have c1: "current w1 = Some env1" and w1: "w1 = w\<lparr>current := Some env1\<rparr>"
        using 1(2) by (auto simp: w1_def env1_def)
      from 1(1) [OF None Some lb refl c1]
      obtain r env' ts' added where
        run: "commitTransactions_loop b cb intr (Suc k) w1 ts1 = Inr (r, w1\<lparr>current := Some env'\<rparr>, ts')"
        and h: "header env' = header env1" "signer env' = signer env1"
        and t: "txs env' = txs env1 @ added"
        and m: "mset added + mset (concat ts') \<subseteq># mset (concat ts1)"
        and p: "\<forall>t \<in> set added. \<not> tx_protected t"
        and n: "intr = None \<longrightarrow> \<not> r \<and> Peek ts' = None"
        by blast
      have "w1\<lparr>current := Some env'\<rparr> = w\<lparr>current := Some env'\<rparr>"
        by (subst w1) simp
      with run have run': "commitTransactions_loop b cb intr (Suc k) w1 ts1 = Inr (r, w\<lparr>current := Some env'\<rparr>, ts')"
        by simp
      have eq: "commitTransactions_loop b cb intr k w ts = Inr (r, w\<lparr>current := Some env'\<rparr>, ts')"
        by (subst commitTransactions_loop.simps) (simp add: None Some lb run')
      show ?thesis
      proof (cases "tx_protected tx")
        case True
        have "mset (concat ts1) \<subseteq># mset (concat ts)"
          using True by (simp add: ts1_def mset_Pop)
        with m have "mset added + mset (concat ts') \<subseteq># mset (concat ts)"
          by (rule subset_mset.order_trans)
        with eq h t p n True show ?thesis
          by (intro exI [of _ r] exI [of _ env'] exI [of _ ts'] exI [of _ added]) (simp add: env1_def)
      next
        case False
        have "mset (concat ts) = {#tx#} + mset (concat ts1)"
          using False mset_Shift [OF Some] by (simp add: ts1_def)
        with m have "mset (tx # added) + mset (concat ts') \<subseteq># mset (concat ts)"
          by simp
        moreover have "txs env' = txs env @ (tx # added)"
          using t False by (simp add: env1_def)
        moreover have "\<forall>t \<in> set (tx # added). \<not> tx_protected t"
          using p False by simp
        ultimately show ?thesis
          using eq h n False
          by (intro exI [of _ r] exI [of _ env'] exI [of _ ts'] exI [of _ "tx # added"])
             (simp add: env1_def del: mset.simps)
      qed
    qed
  qed
qed

lemma loop_interrupted:
  "advance cb m (w, ts) = Some (w', ts') \<Longrightarrow>
   (\<forall>i<m. LoadInterrupt b a (k + i) = commitInterruptNone) \<Longrightarrow>
   LoadInterrupt b a (k + m) \<noteq> commitInterruptNone \<Longrightarrow>
   commitTransactions_loop b cb (Some a) k w ts =
     Inr (LoadInterrupt b a (Suc (k + m)) = commitInterruptNewHead, w', ts')"
proof (induction m arbitrary: k w ts)
  case 0
  then show ?case
    by (subst commitTransactions_loop.simps) (simp add: poll_def)
next
  case (Suc m)
  from Suc.prems(1) obtain tx w1 ts1 where
    pk: "Peek ts = Some tx" and lb: "loop_body cb tx (w, ts) = Inr (w1, ts1)"
    and adv: "advance cb m (w1, ts1) = Some (w', ts')"
    by (auto split: option.splits sum.splits)
  from Suc.prems(2) have q0: "LoadInterrupt b a k = 0"
    by (metis add.right_neutral zero_less_Suc)
  have q: "\<forall>i<m. LoadInterrupt b a (Suc k + i) = 0"
    using Suc.prems(2) by auto
  have s: "LoadInterrupt b a (Suc k + m) \<noteq> 0"
    using Suc.prems(3) by simp
  have "commitTransactions_loop b cb (Some a) k w ts =
        commitTransactions_loop b cb (Some a) (Suc k) w1 ts1"
    by (subst commitTransactions_loop.simps) (simp add: poll_def q0 pk lb)
  also have "\<dots> = Inr (LoadInterrupt b a (Suc (Suc k + m)) = 1, w', ts')"
    by (rule Suc.IH [OF adv q s])
  finally show ?case by simp
qed

text \<open>
  C1. A run of commitTransactions with a non-nil interrupt on an existing environment:
  when the signal reads none at the polls 0 .. m - 1, the loop reaches its m-th poll,
  and the signal is not none there (and, being written once, reads the same at the
  second load), the run returns at once: the result is true exactly when the signal
  is new-head (so false for resubmit and for any other value), and the worker and the
  candidate source are the ones found at that poll: no further transaction is taken.
\<close>

theorem commitTransactions_interrupt:
  assumes "current w = Some env"
    and "advance cb m (w, ts) = Some (w', ts')"
    and "\<forall>i<m. LoadInterrupt b a i = commitInterruptNone"
    and "LoadInterrupt b a m \<noteq> commitInterruptNone"
    and "LoadInterrupt b a (Suc m) = LoadInterrupt b a m"
  shows "commitTransactions b ts cb (Some a) w =
           Inr (LoadInterrupt b a m = commitInterruptNewHead, w', ts')"
proof -
  have "commitTransactions_loop b cb (Some a) 0 w ts =
          Inr (LoadInterrupt b a (Suc (0 + m)) = commitInterruptNewHead, w', ts')"
    by (rule loop_interrupted) (use assms in simp_all)
  with assms(1,5) show ?thesis
    by (simp add: commitTransactions_def)
qed

theorem commitTransactions_interrupt_witness:
  "commitTransactions (backend0\<lparr>LoadInterrupt := \<lambda>a k. if k = 0 then 0 else 2\<rparr>)
       [[tx_a1, tx_a2]] 0 (Some 0) (newWorker\<lparr>current := Some env0\<rparr>) =
     Inr (False, newWorker\<lparr>current := Some (env0\<lparr>txs := [tx_a1], tcount := 1\<rparr>)\<rparr>, [[tx_a2]])"
  using commitTransactions_interrupt
    [of "newWorker\<lparr>current := Some env0\<rparr>" env0 0 1 "[[tx_a1, tx_a2]]"
        "newWorker\<lparr>current := Some (env0\<lparr>txs := [tx_a1], tcount := 1\<rparr>)\<rparr>" "[[tx_a2]]"
        "backend0\<lparr>LoadInterrupt := \<lambda>a k. if k = 0 then 0 else 2\<rparr>" 0]
  by (simp add: loop_body_def commitTransaction_def bump_tcount_def tx_a1_def tx_a2_def
      env0_def newWorker_def backend0_def)

lemma commitTransactions_total:
  assumes "current w = Some env"
  shows "\<exists>r env' ts' added.
     commitTransactions b ts cb intr w = Inr (r, w\<lparr>current := Some env'\<rparr>, ts') \<and>
     header env' = header env \<and> signer env' = signer env \<and>
     txs env' = txs env @ added \<and>
     mset added + mset (concat ts') \<subseteq># mset (concat ts) \<and>
     (\<forall>t \<in> set added. \<not> tx_protected t) \<and>
     (intr = None \<longrightarrow> \<not> r \<and> Peek ts' = None)"
  using loop_total [OF assms, of b cb intr 0 ts] assms
  by (simp add: commitTransactions_def)

subsection \<open>Appending twice\<close>






subsection \<open>commit, exactly\<close>

lemma handoff_eq:
  "handoff b interval blk w =
     w\<lparr>tick := Suc (Suc (tick w)), events := events w @ handoff_events b interval blk (tick w)\<rparr>"
  by (cases interval) (simp_all add: handoff_def handoff_events_def emit_def time_Now_def Let_def)

lemma commit_eq:
  assumes "current w = Some env"
  shows "commit b interval update start w =
     Inr (case Finalize b (header env) (txs env) of Inl err \<Rightarrow> Some err | Inr blk \<Rightarrow> None,
          w\<lparr>tick := commit_ticks b env (tick w),
            events := events w @ commit_events b interval env (tick w),
            snapshotBlock :=
              (case Finalize b (header env) (txs env) of
                 Inl err \<Rightarrow> snapshotBlock w
               | Inr blk \<Rightarrow> if update then Some (NewBlock (header env) (txs env)) else snapshotBlock w)\<rparr>)"
  using assms
  by (cases "Finalize b (header env) (txs env)")
     (simp_all add: commit_def commit_events_def commit_ticks_def emit_def isRunning_def
        handoff_eq updateSnapshot_def Let_def)

lemma handoff_events_ok:
  "Finalize b h ts = Inr blk \<Longrightarrow> e \<in> set (handoff_events b i blk n) \<Longrightarrow> tail_ok b h e"
  by (cases i) (auto simp: handoff_events_def tail_ok_def split: if_splits)

lemma commit_events_ok:
  "e \<in> set (commit_events b i env n) \<Longrightarrow> tail_ok b (header env) e"
  by (cases "Finalize b (header env) (txs env)")
     (auto simp: commit_events_def tail_ok_def split: if_splits dest: handoff_events_ok)

lemma commit_frame:
  assumes "current w = Some env"
  shows "\<exists>err w' es. commit b interval update start w = Inr (err, w') \<and>
           events w' = events w @ es \<and> (\<forall>e \<in> set es. tail_ok b (header env) e) \<and>
           current w' = current w \<and> coinbase w' = coinbase w \<and> extra w' = extra w \<and>
           fullTaskHook w' = fullTaskHook w \<and>
           (\<not> update \<longrightarrow> snapshotBlock w' = snapshotBlock w)"
proof -
  define w' where "w' = w\<lparr>tick := commit_ticks b env (tick w),
            events := events w @ commit_events b interval env (tick w),
            snapshotBlock :=
              (case Finalize b (header env) (txs env) of
                 Inl err \<Rightarrow> snapshotBlock w
               | Inr blk \<Rightarrow> if update then Some (NewBlock (header env) (txs env)) else snapshotBlock w)\<rparr>"
  have "commit b interval update start w =
     Inr (case Finalize b (header env) (txs env) of Inl err \<Rightarrow> Some err | Inr blk \<Rightarrow> None, w')"
    unfolding w'_def by (rule commit_eq [OF assms])
  moreover have "events w' = events w @ commit_events b interval env (tick w)"
    by (simp add: w'_def)
  moreover have "\<forall>e \<in> set (commit_events b interval env (tick w)). tail_ok b (header env) e"
    by (blast dest: commit_events_ok)
  moreover have "current w' = current w" "coinbase w' = coinbase w" "extra w' = extra w"
    "fullTaskHook w' = fullTaskHook w"
    by (simp_all add: w'_def)
  moreover have "\<not> update \<longrightarrow> snapshotBlock w' = snapshotBlock w"
    by (simp add: w'_def split: sum.splits)
  ultimately show ?thesis
    by blast
qed

subsection \<open>The cycle: what follows the coinbase guard\<close>

lemma fill_pending_frame:
  assumes cur: "current w = Some env"
  shows "\<exists>w' es env'. fill_pending b intr tstart w = Inr w' \<and>
           events w' = events w @ es \<and> (\<forall>e \<in> set es. tail_ok b (header env) e) \<and>
           current w' = Some env' \<and> header env' = header env \<and>
           coinbase w' = coinbase w \<and> extra w' = extra w \<and> fullTaskHook w' = fullTaskHook w"
proof (cases "Pending b")
  case (Inl err)
  then show ?thesis
    using cur by (simp add: fill_pending_def emit_def tail_ok_def)
next
  case (Inr pend)
  show ?thesis
  proof (cases "pend = []")
    case True
    with Inr cur show ?thesis
      by (simp add: fill_pending_def updateSnapshot_def)
  next
    case False
    from commitTransactions_total [OF cur, of b "NewTransactionsByPriceAndNonce (signer env) pend" "coinbase w" intr]
    obtain r env1 ts1 where
      run: "commitTransactions b (NewTransactionsByPriceAndNonce (signer env) pend) (coinbase w) intr w =
              Inr (r, w\<lparr>current := Some env1\<rparr>, ts1)"
      and h1: "header env1 = header env"
      by blast
    define w1 where "w1 = w\<lparr>current := Some env1\<rparr>"
    have c1: "current w1 = Some env1" by (simp add: w1_def)
    show ?thesis
    proof (cases r)
      case True
      have "fill_pending b intr tstart w = Inr w1"
        using Inr False cur run True by (simp add: fill_pending_def w1_def)
      then show ?thesis
        using h1 by (simp add: w1_def)
    next
      case nr: False
      from commit_frame [OF c1, of b "fullTaskHook w1" True tstart]
      obtain err w2 es where
        cm: "commit b (fullTaskHook w1) True tstart w1 = Inr (err, w2)"
        and ev: "events w2 = events w1 @ es" "\<forall>e \<in> set es. tail_ok b (header env1) e"
        and fr: "current w2 = current w1" "coinbase w2 = coinbase w1" "extra w2 = extra w1"
          "fullTaskHook w2 = fullTaskHook w1"
        by blast
      have "fill_pending b intr tstart w = Inr w2"
        using Inr False cur run nr cm by (simp add: fill_pending_def w1_def)
      then show ?thesis
        using ev fr h1 by (simp add: w1_def)
    qed
  qed
qed

lemma commitNewWork_eq:
  "commitNewWork b intr ne w =
     (if LoadRunning b (Suc (Suc (tick w))) = 1 \<and> coinbase w = 0
      then Inr (emit (Logged ''Refusing to mine without coinbase'') (after_guard b w))
      else prepare_and_build b intr ne (Now b (tick w)) (CurrentBlock b) (new_header b w)
             (after_guard b w))"
  by (simp add: commitNewWork_def time_Now_def isRunning_def future_wait_def wait_events_def
      new_header_def after_guard_def emit_def Let_def)

lemma prepare_and_build_failed:
  "Prepare b hdr = Inl err \<Longrightarrow>
   prepare_and_build b intr ne tstart parent hdr w =
     Inr (w\<lparr>events := events w @ [PrepareCalled hdr, Logged ''Failed to prepare header for mining'']\<rparr>)"
  by (simp add: prepare_and_build_def emit_def)

lemma prepare_and_build_frame:
  assumes prep: "Prepare b hdr = Inr hdr'"
  shows "\<exists>w' rest env'. prepare_and_build b intr ne tstart parent hdr w = Inr w' \<and>
           events w' = events w @ PrepareCalled hdr # rest \<and>
           (\<forall>e \<in> set rest. tail_ok b hdr' e) \<and>
           current w' = Some env' \<and> header env' = hdr' \<and>
           coinbase w' = coinbase w \<and> extra w' = extra w"
proof -
  define env2 where "env2 = \<lparr>signer = MasterSigner, tcount = 0, header = hdr', txs = []\<rparr>"
  define w2 where "w2 = w\<lparr>events := events w @ [PrepareCalled hdr], current := Some env2\<rparr>"
  have mk: "makeCurrent parent hdr' (emit (PrepareCalled hdr) w) = (None, w2)"
    by (simp add: makeCurrent_def emit_def w2_def env2_def)
  have c2: "current w2 = Some env2" by (simp add: w2_def)
  have h2: "header env2 = hdr'" by (simp add: env2_def)
  obtain err w3 es1 where
    st: "(if \<not> ne then commit b None False tstart w2 else Inr (None, w2)) = Inr (err, w3)"
    and e3: "events w3 = events w2 @ es1" "\<forall>e \<in> set es1. tail_ok b hdr' e"
    and f3: "current w3 = Some env2" "coinbase w3 = coinbase w2" "extra w3 = extra w2"
  proof (cases ne)
    case True
    show ?thesis
      by (rule that [of None w2 "[]"]) (simp_all add: True c2)
  next
    case False
    from commit_frame [OF c2, of b None False tstart]
    obtain err w' es where "commit b None False tstart w2 = Inr (err, w')"
      "events w' = events w2 @ es" "\<forall>e \<in> set es. tail_ok b (header env2) e"
      "current w' = current w2" "coinbase w' = coinbase w2" "extra w' = extra w2"
      by blast
    then show ?thesis
      using False c2 h2 by (intro that [of err w' es]) auto
  qed
  from fill_pending_frame [OF f3(1), of b intr tstart]
  obtain w4 es2 env4 where
    fp: "fill_pending b intr tstart w3 = Inr w4"
    and e4: "events w4 = events w3 @ es2" "\<forall>e \<in> set es2. tail_ok b (header env2) e"
    and f4: "current w4 = Some env4" "header env4 = header env2"
       "coinbase w4 = coinbase w3" "extra w4 = extra w3"
    by blast
  have res: "prepare_and_build b intr ne tstart parent hdr w = Inr w4"
    unfolding prepare_and_build_def Let_def
    by (simp only: prep mk st fp sum.case prod.case option.case)
  have ev: "events w4 = events w @ PrepareCalled hdr # (es1 @ es2)"
    using e3(1) e4(1) by (simp add: w2_def)
  have ok: "\<forall>e \<in> set (es1 @ es2). tail_ok b hdr' e"
    using e3(2) e4(2) h2 by auto
  have "coinbase w4 = coinbase w" "extra w4 = extra w"
    using f3 f4 by (simp_all add: w2_def)
  with res ev ok f4(1,2) h2 show ?thesis
    by (intro exI [of _ w4] exI [of _ "es1 @ es2"] exI [of _ env4]) simp
qed

subsection \<open>Timestamps in int64\<close>

lemma sint_word_of_int_64:
  "- (2 ^ 63) \<le> k \<Longrightarrow> k < 2 ^ 63 \<Longrightarrow> sint (word_of_int k :: 64 word) = k"
  by (simp add: sint_sbintrunc' signed_take_bit_int_eq_self)

lemma sint_bounds_64: "- (2 ^ 63) \<le> sint (x :: 64 word)" "sint (x :: 64 word) < 2 ^ 63"
  using sint_ge [of x] sint_lt [of x] by simp_all

lemma sint_succ_64:
  assumes "sint (x :: 64 word) < 2 ^ 63 - 1"
  shows "sint (x + 1) = sint x + 1"
proof -
  have "- (2 ^ 63) \<le> sint x + 1" using sint_bounds_64(1) [of x] by linarith
  moreover have "sint x + 1 < 2 ^ 63" using assms by linarith
  ultimately have "sint (word_of_int (sint x + 1) :: 64 word) = sint x + 1"
    by (rule sint_word_of_int_64)
  then show ?thesis by simp
qed

lemma candidate_timestamp_max:
  assumes "p < 2 ^ 63 - 1"
  shows "sint (candidate_timestamp p t) = max (sint t) (p + 1)"
proof (cases "sint t \<le> p")
  case True
  have "- (2 ^ 63) \<le> p + 1" using True sint_bounds_64(1) [of t] by linarith
  moreover have "p + 1 < 2 ^ 63" using assms by linarith
  ultimately have "sint (word_of_int (p + 1) :: 64 word) = p + 1"
    by (rule sint_word_of_int_64)
  then have "sint (word_of_int p + 1 :: 64 word) = p + 1"
    by simp
  moreover have "max (sint t) (p + 1) = p + 1"
    using True by linarith
  ultimately show ?thesis
    using True by (simp only: candidate_timestamp_def if_True)
next
  case False
  then have "max (sint t) (p + 1) = sint t" by linarith
  with False show ?thesis by (simp only: candidate_timestamp_def if_False)
qed

lemma wait_events_exact:
  assumes n: "sint now < 2 ^ 63 - 1"
  shows "wait_events tstamp now =
           (if sint now + 1 < sint tstamp
            then [Logged ''Mining too far in the future'',
                  Slept (word_of_int ((sint tstamp - sint now) * 1000000000))]
            else [])"
proof -
  have s: "sint (now + 1) = sint now + 1" by (rule sint_succ_64 [OF n])
  have "word_of_int ((sint tstamp - sint now) * 1000000000) = (tstamp - now) * (1000000000 :: 64 word)"
    by simp
  then show ?thesis
    by (simp only: wait_events_def s)
qed

lemma wait_duration:
  assumes "sint now + 1 < sint tstamp" and "(sint tstamp - sint now) * 1000000000 < 2 ^ 63"
  shows "sint (word_of_int ((sint tstamp - sint now) * 1000000000) :: 64 word) =
             (sint tstamp - sint now) * 1000000000"
proof (rule sint_word_of_int_64)
  have "0 \<le> (sint tstamp - sint now) * 1000000000" using assms(1) by simp
  moreover have "- (2 ^ 63) \<le> (0 :: int)" by simp
  ultimately show "- (2 ^ 63) \<le> (sint tstamp - sint now) * 1000000000" by (rule order_trans [rotated])
  show "(sint tstamp - sint now) * 1000000000 < 2 ^ 63" by (rule assms(2))
qed

subsection \<open>Failure of Finalize\<close>

text \<open>
  C8. When engine.Finalize fails inside commit (called, as always, with an existing
  environment), commit returns that error as an ordinary result: it does not panic.
  Nothing else happens: the worker is the one before the call but for the record of
  the Finalize call in the trace, so no task was sent on taskCh, Shift was not called
  on the confirmation tracker, and the snapshot and the environment are untouched.
\<close>

theorem commit_finalize_failure:
  assumes "current w = Some env" and "Finalize b (header env) (txs env) = Inl err"
  shows "commit b interval update start w =
           Inr (Some err, w\<lparr>events := events w @ [FinalizeCalled (header env) (txs env)]\<rparr>)"
  using assms by (simp add: commit_def emit_def)

theorem commit_finalize_failure_witness:
  "commit (backend0\<lparr>Finalize := \<lambda>h ts. Inl ''finalize failed''\<rparr>) (Some ()) True 1000
       (newWorker\<lparr>current := Some env0\<rparr>) =
     Inr (Some ''finalize failed'',
          newWorker\<lparr>current := Some env0, events := [FinalizeCalled header0 []]\<rparr>)"
  using commit_finalize_failure
    [of "newWorker\<lparr>current := Some env0\<rparr>" env0 "backend0\<lparr>Finalize := \<lambda>h ts. Inl ''finalize failed''\<rparr>"
        "''finalize failed''" "Some ()" True 1000]
  by (simp add: newWorker_def env0_def)

subsection \<open>The coinbase guard\<close>

lemma prepare_and_build_once:
  "\<exists>w' rest. prepare_and_build b intr ne tstart parent hdr w = Inr w' \<and>
     events w' = events w @ PrepareCalled hdr # rest \<and>
     (\<forall>h. PrepareCalled h \<notin> set rest) \<and> (\<forall>d. Slept d \<notin> set rest)"
proof (cases "Prepare b hdr")
  case (Inl err)
  show ?thesis
    by (intro exI [of _ "w\<lparr>events := events w @ [PrepareCalled hdr, Logged ''Failed to prepare header for mining'']\<rparr>"]
          exI [of _ "[Logged ''Failed to prepare header for mining'']"])
       (simp add: prepare_and_build_failed [OF Inl])
next
  case (Inr hdr')
  from prepare_and_build_frame [OF Inr, of intr ne tstart parent w]
  obtain w' rest where r: "prepare_and_build b intr ne tstart parent hdr w = Inr w'"
    "events w' = events w @ PrepareCalled hdr # rest" "\<forall>e \<in> set rest. tail_ok b hdr' e"
    by blast
  have "PrepareCalled h \<notin> set rest" "Slept d \<notin> set rest" for h d
    using r(3) by (auto simp: tail_ok_def)
  with r(1,2) show ?thesis by blast
qed

text \<open>
  C5. The third outside read of commitNewWork is the isRunning of the coinbase guard.
  When it reads sealing as active and the coinbase is the zero address, the cycle
  returns normally (no panic) with a worker that differs from the one it started with
  only in the schedule position and in the trace, which gained the log (and sleep) of
  the future-timestamp guard and the refusal: the engine was not called, the
  environment and the snapshot are the old ones, no task was sent. In every other
  case the engine's Prepare is called exactly once in the cycle, on a header whose
  coinbase is the configured one when the guard read sealing as active, and is left
  at the zero value otherwise.
\<close>

theorem commitNewWork_coinbase_guard:
  "(LoadRunning b (Suc (Suc (tick w))) = 1 \<and> coinbase w = 0 \<longrightarrow>
      commitNewWork b intr ne w =
        Inr (w\<lparr>events := events w @
                wait_events (candidate_timestamp (Time (block_header (CurrentBlock b))) (Now b (tick w)))
                  (Now b (Suc (tick w))) @
                [Logged ''Refusing to mine without coinbase''],
              tick := Suc (Suc (Suc (tick w)))\<rparr>)) \<and>
   (\<not> (LoadRunning b (Suc (Suc (tick w))) = 1 \<and> coinbase w = 0) \<longrightarrow>
      (\<exists>w' hdr rest. commitNewWork b intr ne w = Inr w' \<and>
         events w' = events w @
                wait_events (candidate_timestamp (Time (block_header (CurrentBlock b))) (Now b (tick w)))
                  (Now b (Suc (tick w))) @ PrepareCalled hdr # rest \<and>
         (\<forall>h. PrepareCalled h \<notin> set rest) \<and>
         Coinbase hdr = (if LoadRunning b (Suc (Suc (tick w))) = 1 then coinbase w else 0)))"
proof (intro conjI impI)
  assume "LoadRunning b (Suc (Suc (tick w))) = 1 \<and> coinbase w = 0"
  then show "commitNewWork b intr ne w =
        Inr (w\<lparr>events := events w @
                wait_events (candidate_timestamp (Time (block_header (CurrentBlock b))) (Now b (tick w)))
                  (Now b (Suc (tick w))) @
                [Logged ''Refusing to mine without coinbase''],
              tick := Suc (Suc (Suc (tick w)))\<rparr>)"
    by (simp add: commitNewWork_eq after_guard_def emit_def)
next
  assume n: "\<not> (LoadRunning b (Suc (Suc (tick w))) = 1 \<and> coinbase w = 0)"
  from prepare_and_build_once [of b intr ne "Now b (tick w)" "CurrentBlock b" "new_header b w" "after_guard b w"]
  obtain w' rest where
    "prepare_and_build b intr ne (Now b (tick w)) (CurrentBlock b) (new_header b w) (after_guard b w) = Inr w'"
    "events w' = events (after_guard b w) @ PrepareCalled (new_header b w) # rest"
    "\<forall>h. PrepareCalled h \<notin> set rest"
    by blast
  moreover have "commitNewWork b intr ne w =
      prepare_and_build b intr ne (Now b (tick w)) (CurrentBlock b) (new_header b w) (after_guard b w)"
    using n by (simp only: commitNewWork_eq if_False)
  ultimately show "\<exists>w' hdr rest. commitNewWork b intr ne w = Inr w' \<and>
         events w' = events w @
                wait_events (candidate_timestamp (Time (block_header (CurrentBlock b))) (Now b (tick w)))
                  (Now b (Suc (tick w))) @ PrepareCalled hdr # rest \<and>
         (\<forall>h. PrepareCalled h \<notin> set rest) \<and>
         Coinbase hdr = (if LoadRunning b (Suc (Suc (tick w))) = 1 then coinbase w else 0)"
    by (intro exI [of _ w'] exI [of _ "new_header b w"] exI [of _ rest])
       (simp add: after_guard_def new_header_def)
qed


theorem commitNewWork_coinbase_guard_witness:
  "commitNewWork backend0 None False newWorker =
     Inr (newWorker\<lparr>events := [Logged ''Refusing to mine without coinbase''], tick := 3\<rparr>) \<and>
   (\<exists>w' hdr rest. commitNewWork backend0 None False (setCoinbase 77 newWorker) = Inr w' \<and>
      events w' = PrepareCalled hdr # rest \<and> (\<forall>h. PrepareCalled h \<notin> set rest) \<and> Coinbase hdr = 77)"
  using commitNewWork_coinbase_guard [of backend0 newWorker None False]
    commitNewWork_coinbase_guard [of backend0 "setCoinbase 77 newWorker" None False]
  by (simp add: backend0_def newWorker_def setCoinbase_def wait_events_def candidate_timestamp_def
      parent0_def numeral_3_eq_3)

subsection \<open>The candidate timestamp\<close>

text \<open>
  C4, amended. tstamp is an int64: for a parent timestamp below 2^63 - 1 the header
  handed to the engine carries max (tstart, parent + 1), where tstart is the first
  clock reading. When it exceeds the second clock reading by more than one second
  (the reading itself below 2^63 - 1), the cycle logs and sleeps once, before Prepare
  and never after, for the difference in seconds taken as nanoseconds in an int64;
  that duration is the exact positive difference when it fits in 63 bits. The
  theorem is stated for a cycle that the coinbase guard does not refuse.
\<close>

theorem commitNewWork_timestamp:
  assumes p: "Time (block_header (CurrentBlock b)) < 2 ^ 63 - 1"
    and nw: "sint (Now b (Suc (tick w))) < 2 ^ 63 - 1"
    and ok: "\<not> (LoadRunning b (Suc (Suc (tick w))) = 1 \<and> coinbase w = 0)"
  shows "\<exists>w' hdr rest.
      commitNewWork b intr ne w = Inr w' \<and>
      Time hdr = max (sint (Now b (tick w))) (Time (block_header (CurrentBlock b)) + 1) \<and>
      events w' = events w @
        (if sint (Now b (Suc (tick w))) + 1 < Time hdr
         then [Logged ''Mining too far in the future'',
               Slept (word_of_int ((Time hdr - sint (Now b (Suc (tick w)))) * 1000000000))]
         else []) @ PrepareCalled hdr # rest \<and>
      (\<forall>d. Slept d \<notin> set rest) \<and>
      (sint (Now b (Suc (tick w))) + 1 < Time hdr \<and>
          (Time hdr - sint (Now b (Suc (tick w)))) * 1000000000 < 2 ^ 63 \<longrightarrow>
       sint (word_of_int ((Time hdr - sint (Now b (Suc (tick w)))) * 1000000000) :: int64) =
              (Time hdr - sint (Now b (Suc (tick w)))) * 1000000000)"
proof -
  define tstamp where "tstamp = candidate_timestamp (Time (block_header (CurrentBlock b))) (Now b (tick w))"
  define now where "now = Now b (Suc (tick w))"
  have t: "sint tstamp = max (sint (Now b (tick w))) (Time (block_header (CurrentBlock b)) + 1)"
    unfolding tstamp_def by (rule candidate_timestamp_max [OF p])
  have th: "Time (new_header b w) = sint tstamp"
    by (simp add: new_header_def tstamp_def)
  have we: "wait_events tstamp now =
           (if sint now + 1 < sint tstamp
            then [Logged ''Mining too far in the future'',
                  Slept (word_of_int ((sint tstamp - sint now) * 1000000000))]
            else [])"
    by (rule wait_events_exact) (use nw in \<open>simp add: now_def\<close>)
  have ag: "events (after_guard b w) = events w @ wait_events tstamp now"
    by (simp add: after_guard_def tstamp_def now_def)
  from prepare_and_build_once [of b intr ne "Now b (tick w)" "CurrentBlock b" "new_header b w" "after_guard b w"]
  obtain w' rest where
    r: "prepare_and_build b intr ne (Now b (tick w)) (CurrentBlock b) (new_header b w) (after_guard b w) = Inr w'"
    "events w' = events (after_guard b w) @ PrepareCalled (new_header b w) # rest"
    "\<forall>d. Slept d \<notin> set rest"
    by blast
  have eq: "commitNewWork b intr ne w = Inr w'"
    using ok r(1) by (simp only: commitNewWork_eq if_False)
  have ev: "events w' = events w @
        (if sint now + 1 < Time (new_header b w)
         then [Logged ''Mining too far in the future'',
               Slept (word_of_int ((Time (new_header b w) - sint now) * 1000000000))]
         else []) @ PrepareCalled (new_header b w) # rest"
    using r(2) by (simp only: ag we th append_assoc)
  have du: "sint now + 1 < Time (new_header b w) \<and>
          (Time (new_header b w) - sint now) * 1000000000 < 2 ^ 63 \<longrightarrow>
       sint (word_of_int ((Time (new_header b w) - sint now) * 1000000000) :: int64) =
              (Time (new_header b w) - sint now) * 1000000000"
    using wait_duration [of now tstamp] by (simp only: th) blast
  show ?thesis
    using eq ev r(3) du th t unfolding now_def
    by (intro exI [of _ w'] exI [of _ "new_header b w"] exI [of _ rest]) (simp only: simp_thms)
qed


theorem commitNewWork_timestamp_witness:
  "\<exists>w' hdr rest.
      commitNewWork (backend0\<lparr>Now := \<lambda>n. 98\<rparr>) None True (setCoinbase 77 newWorker) = Inr w' \<and>
      Time hdr = 101 \<and>
      events w' = [Logged ''Mining too far in the future'', Slept 3000000000, PrepareCalled hdr] @ rest \<and>
      (\<forall>d. Slept d \<notin> set rest) \<and> sint (3000000000 :: int64) = 3000000000"
proof -
  let ?b = "backend0\<lparr>Now := \<lambda>n. 98\<rparr>"
  let ?w = "setCoinbase 77 newWorker"
  have h1: "Time (block_header (CurrentBlock ?b)) < 2 ^ 63 - 1"
    by (simp add: backend0_def parent0_def)
  have h2: "sint (Now ?b (Suc (tick ?w))) < 2 ^ 63 - 1"
    by simp
  have h3: "\<not> (LoadRunning ?b (Suc (Suc (tick ?w))) = 1 \<and> coinbase ?w = 0)"
    by (simp add: setCoinbase_def)
  from commitNewWork_timestamp [OF h1 h2 h3, of None True]
  obtain w' hdr rest where
    "commitNewWork ?b None True ?w = Inr w'"
    "Time hdr = max (sint (Now ?b (tick ?w))) (Time (block_header (CurrentBlock ?b)) + 1)"
    "events w' = events ?w @
        (if sint (Now ?b (Suc (tick ?w))) + 1 < Time hdr
         then [Logged ''Mining too far in the future'',
               Slept (word_of_int ((Time hdr - sint (Now ?b (Suc (tick ?w)))) * 1000000000))]
         else []) @ PrepareCalled hdr # rest"
    "\<forall>d. Slept d \<notin> set rest"
    by blast
  moreover from this(2) have "Time hdr = 101"
    by (simp add: backend0_def parent0_def)
  ultimately show ?thesis
    by (intro exI [of _ w'] exI [of _ hdr] exI [of _ rest])
       (simp add: setCoinbase_def newWorker_def)
qed

text \<open>
  C4, as stated, fails at the end of the int64 range: with a parent timestamp of
  2^63 - 1 (not below the clock reading 1000) the increment wraps, and the header
  gets the timestamp -2^63 instead of parent + 1.
\<close>

theorem commitNewWork_timestamp_counterexample:
  "commitNewWork
       (backend0\<lparr>CurrentBlock := parent0\<lparr>block_header := (block_header parent0)\<lparr>Time := 9223372036854775807\<rparr>\<rparr>,
                  LoadRunning := \<lambda>n. 0, Pending := Inr []\<rparr>)
       None True newWorker =
     Inr (newWorker
          \<lparr>current := Some \<lparr>signer = MasterSigner, tcount = 0,
                            header = \<lparr>ParentHash = 5, Coinbase = 0, Number = 8,
                                      Time = - 9223372036854775808, Extra = []\<rparr>,
                            txs = []\<rparr>,
           snapshotBlock := Some (NewBlock \<lparr>ParentHash = 5, Coinbase = 0, Number = 8,
                                      Time = - 9223372036854775808, Extra = []\<rparr> []),
           tick := 3,
           events := [PrepareCalled \<lparr>ParentHash = 5, Coinbase = 0, Number = 8,
                                      Time = - 9223372036854775808, Extra = []\<rparr>]\<rparr>) \<and>
   - 9223372036854775808 \<noteq> max (1000 :: int) (9223372036854775807 + 1)"
  by (simp add: commitNewWork_eq new_header_def after_guard_def wait_events_def candidate_timestamp_def
      prepare_and_build_def makeCurrent_def fill_pending_def updateSnapshot_def emit_def
      backend0_def newWorker_def parent0_def numeral_3_eq_3)

subsection \<open>The zero address as coinbase\<close>

lemma wait_events_no_task: "TaskSent t \<notin> set (wait_events tstamp now)"
  by (simp add: wait_events_def)

text \<open>
  C10, amended. newWorker leaves the coinbase at the zero address, and setCoinbase
  with the zero address gives a worker that a cycle whose coinbase guard reads sealing
  as active refuses like an unconfigured one: it only logs. For any address a, a
  cycle whose guard reads sealing as active sends a task only if a is not zero, and
  the block of every task it sends carries a as its coinbase, for an engine whose
  Prepare and Finalize keep the coinbase of the header they are given.
\<close>

theorem zero_coinbase_refused:
  assumes run: "LoadRunning b (Suc (Suc (tick w))) = 1"
    and prep: "\<forall>h h'. Prepare b h = Inr h' \<longrightarrow> Coinbase h' = Coinbase h"
    and fin: "\<forall>h ts blk. Finalize b h ts = Inr blk \<longrightarrow> Coinbase (block_header blk) = Coinbase h"
  shows "coinbase newWorker = 0 \<and>
         commitNewWork b intr ne (setCoinbase 0 w) =
           Inr (w\<lparr>coinbase := 0,
                  events := events w @
                    wait_events (candidate_timestamp (Time (block_header (CurrentBlock b))) (Now b (tick w)))
                      (Now b (Suc (tick w))) @
                    [Logged ''Refusing to mine without coinbase''],
                  tick := Suc (Suc (Suc (tick w)))\<rparr>) \<and>
         (\<forall>a w' t. commitNewWork b intr ne (setCoinbase a w) = Inr w' \<and>
                    TaskSent t \<in> set (drop (length (events w)) (events w')) \<longrightarrow>
                    a \<noteq> 0 \<and> Coinbase (block_header (block t)) = a)"
proof (intro conjI allI impI)
  show "coinbase newWorker = 0" by (simp add: newWorker_def)
  show "commitNewWork b intr ne (setCoinbase 0 w) =
           Inr (w\<lparr>coinbase := 0,
                  events := events w @
                    wait_events (candidate_timestamp (Time (block_header (CurrentBlock b))) (Now b (tick w)))
                      (Now b (Suc (tick w))) @
                    [Logged ''Refusing to mine without coinbase''],
                  tick := Suc (Suc (Suc (tick w)))\<rparr>)"
    using run by (simp add: commitNewWork_eq after_guard_def emit_def setCoinbase_def)
next
  fix a w' t
  assume h: "commitNewWork b intr ne (setCoinbase a w) = Inr w' \<and>
             TaskSent t \<in> set (drop (length (events w)) (events w'))"
  define v where "v = setCoinbase a w"
  have v: "tick v = tick w" "events v = events w" "coinbase v = a"
    by (simp_all add: v_def setCoinbase_def)
  define wt where "wt = wait_events (candidate_timestamp (Time (block_header (CurrentBlock b))) (Now b (tick v)))
                      (Now b (Suc (tick v)))"
  have ag: "events (after_guard b v) = events w @ wt"
    by (simp add: after_guard_def wt_def v)
  have nt: "TaskSent t \<notin> set wt"
    unfolding wt_def by (rule wait_events_no_task)
  have cb: "Coinbase (new_header b v) = a"
    using run by (simp add: new_header_def v)
  show "a \<noteq> 0"
  proof
    assume "a = 0"
    then have "commitNewWork b intr ne v =
        Inr (emit (Logged ''Refusing to mine without coinbase'') (after_guard b v))"
      using run by (simp add: commitNewWork_eq v)
    with h have "events w' = events w @ wt @ [Logged ''Refusing to mine without coinbase'']"
      by (auto simp: v_def [symmetric] emit_def ag)
    with h nt show False by simp
  qed
  then have eq: "commitNewWork b intr ne v =
      prepare_and_build b intr ne (Now b (tick v)) (CurrentBlock b) (new_header b v) (after_guard b v)"
    by (simp add: commitNewWork_eq v)
  show "Coinbase (block_header (block t)) = a"
  proof (cases "Prepare b (new_header b v)")
    case (Inl err)
    from prepare_and_build_failed [OF Inl, of intr ne "Now b (tick v)" "CurrentBlock b" "after_guard b v"]
    have "events w' = events w @ wt @ [PrepareCalled (new_header b v), Logged ''Failed to prepare header for mining'']"
      using h eq by (auto simp: v_def [symmetric] ag)
    with h nt show ?thesis by simp
  next
    case (Inr hdr')
    from prepare_and_build_frame [OF Inr, of intr ne "Now b (tick v)" "CurrentBlock b" "after_guard b v"]
    obtain w'' rest where
      r: "prepare_and_build b intr ne (Now b (tick v)) (CurrentBlock b) (new_header b v) (after_guard b v) = Inr w''"
      "events w'' = events (after_guard b v) @ PrepareCalled (new_header b v) # rest"
      "\<forall>e \<in> set rest. tail_ok b hdr' e"
      by blast
    have "w'' = w'" using h eq r(1) by (simp add: v_def [symmetric])
    with r(2) have "events w' = events w @ wt @ PrepareCalled (new_header b v) # rest"
      by (simp add: ag)
    with h nt have "TaskSent t \<in> set rest" by simp
    with r(3) have "tail_ok b hdr' (TaskSent t)" by blast
    then obtain ts where "Finalize b hdr' ts = Inr (block t)"
      by (auto simp: tail_ok_def)
    with fin have "Coinbase (block_header (block t)) = Coinbase hdr'" by blast
    also have "\<dots> = Coinbase (new_header b v)" using prep Inr by blast
    finally show ?thesis using cb by simp
  qed
qed

text \<open>
  C10, as stated, fails when the running flag changes within a cycle. isRunning is
  read once by the coinbase guard and again by every commit. Here the guard (third
  outside read) reads 0, so the header keeps the zero coinbase and the zero address
  is not refused; the commit of the empty block (fourth read) reads 1, and a task
  whose block carries the zero coinbase is sent on taskCh.
\<close>

theorem zero_coinbase_counterexample:
  "commitNewWork (backend0\<lparr>LoadRunning := \<lambda>n. if n = 2 then 0 else 1, Pending := Inr []\<rparr>)
       None False (setCoinbase 0 newWorker) =
     Inr (newWorker
          \<lparr>current := Some \<lparr>signer = MasterSigner, tcount = 0,
                            header = \<lparr>ParentHash = 5, Coinbase = 0, Number = 8, Time = 1000, Extra = []\<rparr>,
                            txs = []\<rparr>,
           snapshotBlock := Some (NewBlock \<lparr>ParentHash = 5, Coinbase = 0, Number = 8, Time = 1000, Extra = []\<rparr> []),
           tick := 6,
           events := [PrepareCalled \<lparr>ParentHash = 5, Coinbase = 0, Number = 8, Time = 1000, Extra = []\<rparr>,
                      FinalizeCalled \<lparr>ParentHash = 5, Coinbase = 0, Number = 8, Time = 1000, Extra = []\<rparr> [],
                      TaskSent \<lparr>block = NewBlock \<lparr>ParentHash = 5, Coinbase = 0, Number = 8, Time = 1000, Extra = []\<rparr> [],
                                createdAt = 1000\<rparr>,
                      Shifted 7]\<rparr>) \<and>
   LoadRunning (backend0\<lparr>LoadRunning := \<lambda>n. if n = 2 then 0 else 1, Pending := Inr []\<rparr>) 3 = 1"
  by (simp add: commitNewWork_eq new_header_def after_guard_def wait_events_def candidate_timestamp_def
      prepare_and_build_def makeCurrent_def fill_pending_def updateSnapshot_def emit_def
      commit_def isRunning_def handoff_def time_Now_def NumberU64_def NewBlock_def Let_def
      setCoinbase_def backend0_def newWorker_def parent0_def eval_nat_numeral)


theorem zero_coinbase_refused_witness:
  "commitNewWork (backend0\<lparr>Pending := Inr []\<rparr>) None False (setCoinbase 0 (setCoinbase 77 newWorker)) =
     Inr (newWorker\<lparr>events := [Logged ''Refusing to mine without coinbase''], tick := 3\<rparr>) \<and>
   commitNewWork (backend0\<lparr>Pending := Inr []\<rparr>) None False (setCoinbase 77 newWorker) =
     Inr (newWorker
          \<lparr>current := Some \<lparr>signer = MasterSigner, tcount = 0,
                            header = \<lparr>ParentHash = 5, Coinbase = 77, Number = 8, Time = 1000, Extra = []\<rparr>,
                            txs = []\<rparr>,
           coinbase := 77,
           snapshotBlock := Some (NewBlock \<lparr>ParentHash = 5, Coinbase = 77, Number = 8, Time = 1000, Extra = []\<rparr> []),
           tick := 6,
           events := [PrepareCalled \<lparr>ParentHash = 5, Coinbase = 77, Number = 8, Time = 1000, Extra = []\<rparr>,
                      FinalizeCalled \<lparr>ParentHash = 5, Coinbase = 77, Number = 8, Time = 1000, Extra = []\<rparr> [],
                      TaskSent \<lparr>block = NewBlock \<lparr>ParentHash = 5, Coinbase = 77, Number = 8, Time = 1000, Extra = []\<rparr> [],
                                createdAt = 1000\<rparr>,
                      Shifted 7]\<rparr>)"
proof -
  let ?b = "backend0\<lparr>Pending := Inr []\<rparr>"
  have h1: "LoadRunning ?b (Suc (Suc (tick (setCoinbase 77 newWorker)))) = 1"
    by (simp add: backend0_def)
  have h2: "\<forall>h h'. Prepare ?b h = Inr h' \<longrightarrow> Coinbase h' = Coinbase h"
    by (simp add: backend0_def)
  have h3: "\<forall>h ts blk. Finalize ?b h ts = Inr blk \<longrightarrow> Coinbase (block_header blk) = Coinbase h"
    by (auto simp: backend0_def NewBlock_def)
  have six: "(6 :: nat) = Suc (Suc (Suc (Suc (Suc (Suc 0)))))"
    by simp
  have "commitNewWork ?b None False (setCoinbase 0 (setCoinbase 77 newWorker)) =
     Inr (newWorker\<lparr>events := [Logged ''Refusing to mine without coinbase''], tick := 3\<rparr>)"
    using zero_coinbase_refused [OF h1 h2 h3, of None False]
    by (simp add: setCoinbase_def newWorker_def wait_events_def candidate_timestamp_def
        backend0_def parent0_def numeral_3_eq_3)
  then show ?thesis
    by (simp add: commitNewWork_eq new_header_def after_guard_def wait_events_def candidate_timestamp_def
      prepare_and_build_def makeCurrent_def fill_pending_def updateSnapshot_def emit_def
      commit_def isRunning_def handoff_def time_Now_def NumberU64_def NewBlock_def Let_def
      setCoinbase_def backend0_def newWorker_def parent0_def six)
qed

subsection \<open>New-head abort or publication\<close>




subsection \<open>New transactions from the pool\<close>










subsection \<open>The scheduler's signals\<close>

lemma sched_accepts_append:
  "sched_accepts s (es @ es') =
     (case sched_accepts s es of None \<Rightarrow> None | Some s' \<Rightarrow> sched_accepts s' es')"
  by (induction es arbitrary: s) (simp_all split: option.splits)

lemma requests_append: "requests (es @ es') = requests es @ requests es'"
  by (induction es rule: requests.induct) simp_all

text \<open>What recommit appends to the trace.\<close>

lemma recommit_eq:
  "recommit ne s st =
     \<lparr>cur_interrupt = Some (length (signals st)),
      signals = (case cur_interrupt st of None \<Rightarrow> signals st | Some a \<Rightarrow> (signals st)[a := s]) @ [0],
      sched_trace = sched_trace st @
        (case cur_interrupt st of None \<Rightarrow> [] | Some a \<Rightarrow> [StoreInt32 a s]) @
        [NewInt32 (length (signals st)),
         SentNewWork \<lparr>interrupt = Some (length (signals st)), noempty = ne\<rparr>,
         TimerReset]\<rparr>"
  by (cases "cur_interrupt st") (simp_all add: recommit_def stamp_def sched_emit_def Let_def)

lemma sched_inv_init: "sched_inv sched_init"
  by (simp add: sched_inv_def sched_init_def)

lemma sched_inv_recommit:
  assumes inv: "sched_inv st" and s: "s \<noteq> commitInterruptNone"
  shows "sched_inv (recommit ne s st)"
proof -
  let ?n = "length (signals st)"
  from inv have acc: "sched_accepts (Idle None, 0) (sched_trace st) = Some (Idle (cur_interrupt st), ?n)"
    and req: "map interrupt (requests (sched_trace st)) = map Some [0 ..< ?n]"
    and live: "\<forall>a < ?n. (signals st ! a = 0) = (cur_interrupt st = Some a)"
    and rng: "\<forall>a. cur_interrupt st = Some a \<longrightarrow> a < ?n"
    by (simp_all add: sched_inv_def)
  show ?thesis
  proof (cases "cur_interrupt st")
    case None
    have "\<forall>a < Suc ?n. ((signals st @ [0]) ! a = 0) = (?n = a)"
      using live None by (auto simp: nth_append)
    then show ?thesis
      using None acc req
      by (simp add: sched_inv_def recommit_eq sched_accepts_append requests_append)
  next
    case (Some c)
    then have c: "c < ?n" using rng by simp
    have "\<forall>a < Suc ?n. (((signals st)[c := s] @ [0]) ! a = 0) = (?n = a)"
      using live Some s c by (auto simp: nth_append nth_list_update)
    then show ?thesis
      using Some acc req s
      by (simp add: sched_inv_def recommit_eq sched_accepts_append requests_append)
  qed
qed

lemma sched_inv_step:
  "sched_inv st \<Longrightarrow> newWorkLoop_step inp st = Some st' \<Longrightarrow> sched_inv st'"
  by (cases inp) (auto simp: newWorkLoop_step_def sched_inv_recommit split: if_splits)

lemma sched_inv_newWorkLoop: "sched_inv st \<Longrightarrow> sched_inv (newWorkLoop inps st)"
proof (induction inps arbitrary: st)
  case Nil
  then show ?case by simp
next
  case (Cons inp inps)
  then show ?case
    by (cases "newWorkLoop_step inp st") (auto dest: sched_inv_step)
qed

text \<open>
  C6. For every sequence of inputs of newWorkLoop, from its initial state: the trace
  is accepted by the acceptor above, so each request is made of the stamp of the
  previous signal (when there is one, with a reason other than none), then the
  allocation of a signal at an address never used before, then the send of the
  request that carries it; the k-th request issued carries the signal k, so no two
  requests share a signal; and the current signal is the only one that still reads
  none (each earlier one was stamped, once). recommit appends exactly these events,
  with the reason it is given: new-head on startCh and chainHeadCh, resubmit on the
  timer when the running flag reads 1. On the timer with any other value of the flag
  the step leaves the scheduler as it is: nothing is stamped, allocated or sent.
\<close>

theorem newWorkLoop_fresh_signal:
  "sched_accepts (Idle None, 0) (sched_trace (newWorkLoop inps sched_init)) =
     Some (Idle (cur_interrupt (newWorkLoop inps sched_init)), length (signals (newWorkLoop inps sched_init))) \<and>
   map interrupt (requests (sched_trace (newWorkLoop inps sched_init))) =
     map Some [0 ..< length (signals (newWorkLoop inps sched_init))] \<and>
   distinct (map interrupt (requests (sched_trace (newWorkLoop inps sched_init)))) \<and>
   (\<forall>a < length (signals (newWorkLoop inps sched_init)).
      (signals (newWorkLoop inps sched_init) ! a = commitInterruptNone) =
      (cur_interrupt (newWorkLoop inps sched_init) = Some a)) \<and>
   (\<forall>st ne s. sched_trace (recommit ne s st) = sched_trace st @
        (case cur_interrupt st of None \<Rightarrow> [] | Some a \<Rightarrow> [StoreInt32 a s]) @
        [NewInt32 (length (signals st)),
         SentNewWork \<lparr>interrupt = Some (length (signals st)), noempty = ne\<rparr>,
         TimerReset]) \<and>
   (\<forall>st. newWorkLoop_step StartCh st = Some (recommit False commitInterruptNewHead st) \<and>
         newWorkLoop_step ChainHeadCh st = Some (recommit False commitInterruptNewHead st) \<and>
         newWorkLoop_step (TimerC 1) st = Some (recommit True commitInterruptResubmit st)) \<and>
   (\<forall>st r. r \<noteq> 1 \<longrightarrow> newWorkLoop_step (TimerC r) st = Some st)"
proof -
  let ?st = "newWorkLoop inps sched_init"
  have inv: "sched_inv ?st"
    by (rule sched_inv_newWorkLoop [OF sched_inv_init])
  then have m: "map interrupt (requests (sched_trace ?st)) = map Some [0 ..< length (signals ?st)]"
    by (simp add: sched_inv_def)
  have "distinct (map Some [0 ..< length (signals ?st)])"
    by (simp add: distinct_map)
  with m have d: "distinct (map interrupt (requests (sched_trace ?st)))"
    by simp
  show ?thesis
    using inv d by (simp add: sched_inv_def recommit_eq newWorkLoop_step_def)
qed

theorem newWorkLoop_fresh_signal_witness:
  "newWorkLoop [StartCh, TimerC 0, TimerC 1, ChainHeadCh, ExitCh, StartCh] sched_init =
     \<lparr>cur_interrupt = Some 2, signals = [2, 1, 0],
      sched_trace =
        [NewInt32 0, SentNewWork \<lparr>interrupt = Some 0, noempty = False\<rparr>, TimerReset,
         StoreInt32 0 2, NewInt32 1, SentNewWork \<lparr>interrupt = Some 1, noempty = True\<rparr>, TimerReset,
         StoreInt32 1 1, NewInt32 2, SentNewWork \<lparr>interrupt = Some 2, noempty = False\<rparr>, TimerReset]\<rparr> \<and>
   sched_accepts (Idle None, 0)
     (sched_trace (newWorkLoop [StartCh, TimerC 0, TimerC 1, ChainHeadCh, ExitCh, StartCh] sched_init)) =
     Some (Idle (Some 2), 3) \<and>
   newWorkLoop_step (TimerC 0) sched_init = Some sched_init"
proof -
  have e: "newWorkLoop [StartCh, TimerC 0, TimerC 1, ChainHeadCh, ExitCh, StartCh] sched_init =
     \<lparr>cur_interrupt = Some 2, signals = [2, 1, 0],
      sched_trace =
        [NewInt32 0, SentNewWork \<lparr>interrupt = Some 0, noempty = False\<rparr>, TimerReset,
         StoreInt32 0 2, NewInt32 1, SentNewWork \<lparr>interrupt = Some 1, noempty = True\<rparr>, TimerReset,
         StoreInt32 1 1, NewInt32 2, SentNewWork \<lparr>interrupt = Some 2, noempty = False\<rparr>, TimerReset]\<rparr>"
    by (simp add: newWorkLoop_step_def recommit_eq sched_init_def)
  note inst = newWorkLoop_fresh_signal [of "[StartCh, TimerC 0, TimerC 1, ChainHeadCh, ExitCh, StartCh]"]
  from inst have a: "sched_accepts (Idle None, 0)
     (sched_trace (newWorkLoop [StartCh, TimerC 0, TimerC 1, ChainHeadCh, ExitCh, StartCh] sched_init)) =
     Some (Idle (cur_interrupt (newWorkLoop [StartCh, TimerC 0, TimerC 1, ChainHeadCh, ExitCh, StartCh] sched_init)),
           length (signals (newWorkLoop [StartCh, TimerC 0, TimerC 1, ChainHeadCh, ExitCh, StartCh] sched_init)))"
    by (rule conjunct1)
  have b: "sched_accepts (Idle None, 0)
     (sched_trace (newWorkLoop [StartCh, TimerC 0, TimerC 1, ChainHeadCh, ExitCh, StartCh] sched_init)) =
     Some (Idle (Some 2), 3)"
    by (subst a) (simp only: e scheduler.simps, simp)
  from inst have "\<forall>st r. r \<noteq> 1 \<longrightarrow> newWorkLoop_step (TimerC r) st = Some st"
    by blast
  then have c: "newWorkLoop_step (TimerC 0) sched_init = Some sched_init"
    by simp
  show ?thesis
    by (intro conjI) (rule e, rule b, rule c)
qed

subsection \<open>The sealing loop's cancel signal\<close>

lemma interrupt_seal_eq:
  assumes "seal_inv st"
  shows "interrupt_seal st =
     Inr (case stopCh st of
            None \<Rightarrow> st
          | Some c \<Rightarrow> st\<lparr>stopCh := None, closed := (closed st)[c := True],
                       seal_trace := seal_trace st @ [CloseCh c]\<rparr>)"
  using assms
  by (cases "stopCh st") (auto simp: interrupt_seal_def seal_inv_def seal_emit_def)

lemma interrupt_seal_all_closed:
  assumes "seal_inv st" and "interrupt_seal st = Inr st'"
  shows "stopCh st' = None \<and> length (closed st') = length (closed st) \<and>
         (\<forall>c < length (closed st'). closed st' ! c)"
proof (cases "stopCh st")
  case None
  with assms show ?thesis
    by (auto simp: interrupt_seal_eq seal_inv_def)
next
  case (Some c)
  with assms show ?thesis
    by (auto simp: interrupt_seal_eq seal_inv_def nth_list_update)
qed

lemma start_seal_inv:
  assumes "stopCh st = None" and "\<forall>c < length (closed st). closed st ! c"
  shows "seal_inv (start_seal t st)"
  using assms by (auto simp: seal_inv_def start_seal_def seal_emit_def Let_def nth_append)

lemma seal_inv_hook: "seal_inv (seal_emit e st) = seal_inv st"
  by (simp add: seal_inv_def seal_emit_def)

lemma taskLoop_step_total:
  assumes inv: "seal_inv st"
  shows "\<exists>go st'. taskLoop_step hook inp st = Inr (go, st') \<and> seal_inv st' \<and>
           (go = (inp \<noteq> SealExitCh)) \<and>
           (\<not> go \<longrightarrow> stopCh st' = None)"
proof (cases inp)
  case (TaskCh t)
  define st1 where "st1 = (case hook of None \<Rightarrow> st | Some u \<Rightarrow> seal_emit (NewTaskHookCalled t) st)"
  have i1: "seal_inv st1"
    using inv by (cases hook) (simp_all add: st1_def seal_inv_hook)
  obtain st2 where i2: "interrupt_seal st1 = Inr st2"
    using interrupt_seal_eq [OF i1] by blast
  from interrupt_seal_all_closed [OF i1 i2]
  have "seal_inv (start_seal t st2)"
    by (intro start_seal_inv) auto
  moreover have "taskLoop_step hook inp st = Inr (True, start_seal t st2)"
    using i2 by (simp add: taskLoop_step_def TaskCh st1_def [symmetric])
  ultimately show ?thesis
    using TaskCh by auto
next
  case SealExitCh
  obtain st1 where i1: "interrupt_seal st = Inr st1"
    using interrupt_seal_eq [OF inv] by blast
  from interrupt_seal_all_closed [OF inv i1]
  have "seal_inv st1" "stopCh st1 = None"
    by (auto simp: seal_inv_def)
  moreover have "taskLoop_step hook inp st = Inr (False, st1)"
    using i1 by (simp add: taskLoop_step_def SealExitCh)
  ultimately show ?thesis
    using SealExitCh by auto
qed

lemma taskLoop_total:
  "seal_inv st \<Longrightarrow>
   \<exists>go st'. taskLoop hook inps st = Inr (go, st') \<and> seal_inv st' \<and>
     (go = (SealExitCh \<notin> set inps)) \<and> (\<not> go \<longrightarrow> stopCh st' = None)"
proof (induction inps arbitrary: st)
  case Nil
  then show ?case by auto
next
  case (Cons inp inps)
  from taskLoop_step_total [OF Cons.prems, of hook inp]
  obtain go st1 where s: "taskLoop_step hook inp st = Inr (go, st1)" "seal_inv st1"
    "go = (inp \<noteq> SealExitCh)" "\<not> go \<longrightarrow> stopCh st1 = None"
    by blast
  show ?case
  proof (cases go)
    case True
    from Cons.IH [OF s(2)]
    obtain go' st' where "taskLoop hook inps st1 = Inr (go', st')" "seal_inv st'"
      "go' = (SealExitCh \<notin> set inps)" "\<not> go' \<longrightarrow> stopCh st' = None"
      by blast
    with s True show ?thesis by auto
  next
    case False
    with s show ?thesis by auto
  qed
qed

lemma taskLoop_step_task:
  assumes inv: "seal_inv st"
  shows "taskLoop_step hook (TaskCh t) st =
     Inr (True,
          \<lparr>stopCh = Some (length (closed st)),
           closed = (case stopCh st of None \<Rightarrow> closed st | Some c \<Rightarrow> (closed st)[c := True]) @ [False],
           seal_trace = seal_trace st @
             (case hook of None \<Rightarrow> [] | Some u \<Rightarrow> [NewTaskHookCalled t]) @
             (case stopCh st of None \<Rightarrow> [] | Some c \<Rightarrow> [CloseCh c]) @
             [MakeCh (length (closed st)), GoSeal t (length (closed st))]\<rparr>)"
proof -
  define st1 where "st1 = (case hook of None \<Rightarrow> st | Some u \<Rightarrow> seal_emit (NewTaskHookCalled t) st)"
  have i1: "seal_inv st1"
    using inv by (cases hook) (simp_all add: st1_def seal_inv_hook)
  have f1: "stopCh st1 = stopCh st" "closed st1 = closed st"
    "seal_trace st1 = seal_trace st @ (case hook of None \<Rightarrow> [] | Some u \<Rightarrow> [NewTaskHookCalled t])"
    by (cases hook; simp add: st1_def seal_emit_def)+
  show ?thesis
    unfolding taskLoop_step_def
    by (cases "stopCh st")
       (simp_all add: st1_def [symmetric] interrupt_seal_eq [OF i1] f1 start_seal_def seal_emit_def Let_def)
qed


text \<open>
  C9. For every sequence of inputs of taskLoop, from its initial state, the loop never
  panics (no channel is closed twice), it has returned exactly when exitCh was among
  the inputs, and the held stop channel is the only channel ever made that is not
  closed: at most one cancel signal is live. From the state reached, a new task
  makes the loop call the hook (when set), close the held channel (when there is
  one), make a new channel and start seal on it, in this order and within the one
  step: no input, and so nothing of the superseded attempt, is awaited in between.
  The exitCh case closes the held channel (when there is one) and returns; all
  channels are closed then.
\<close>

theorem taskLoop_one_live_signal:
  "\<exists>go st. taskLoop hook inps seal_init = Inr (go, st) \<and>
     (go = (SealExitCh \<notin> set inps)) \<and>
     (\<forall>c < length (closed st). (\<not> closed st ! c) = (stopCh st = Some c)) \<and>
     (\<not> go \<longrightarrow> stopCh st = None) \<and>
     (\<forall>t. taskLoop_step hook (TaskCh t) st =
        Inr (True,
          \<lparr>stopCh = Some (length (closed st)),
           closed = (case stopCh st of None \<Rightarrow> closed st | Some c \<Rightarrow> (closed st)[c := True]) @ [False],
           seal_trace = seal_trace st @
             (case hook of None \<Rightarrow> [] | Some u \<Rightarrow> [NewTaskHookCalled t]) @
             (case stopCh st of None \<Rightarrow> [] | Some c \<Rightarrow> [CloseCh c]) @
             [MakeCh (length (closed st)), GoSeal t (length (closed st))]\<rparr>)) \<and>
     taskLoop_step hook SealExitCh st =
        Inr (False,
          case stopCh st of
            None \<Rightarrow> st
          | Some c \<Rightarrow> st\<lparr>stopCh := None, closed := (closed st)[c := True],
                       seal_trace := seal_trace st @ [CloseCh c]\<rparr>)"
proof -
  have i0: "seal_inv seal_init"
    by (simp add: seal_inv_def seal_init_def)
  from taskLoop_total [OF i0, of hook inps]
  obtain go st where r: "taskLoop hook inps seal_init = Inr (go, st)" "seal_inv st"
    "go = (SealExitCh \<notin> set inps)" "\<not> go \<longrightarrow> stopCh st = None"
    by blast
  have l: "\<forall>c < length (closed st). (\<not> closed st ! c) = (stopCh st = Some c)"
    using r(2) by (simp add: seal_inv_def)
  have t: "\<forall>t. taskLoop_step hook (TaskCh t) st =
        Inr (True,
          \<lparr>stopCh = Some (length (closed st)),
           closed = (case stopCh st of None \<Rightarrow> closed st | Some c \<Rightarrow> (closed st)[c := True]) @ [False],
           seal_trace = seal_trace st @
             (case hook of None \<Rightarrow> [] | Some u \<Rightarrow> [NewTaskHookCalled t]) @
             (case stopCh st of None \<Rightarrow> [] | Some c \<Rightarrow> [CloseCh c]) @
             [MakeCh (length (closed st)), GoSeal t (length (closed st))]\<rparr>)"
    using taskLoop_step_task [OF r(2)] by blast
  have e: "taskLoop_step hook SealExitCh st =
        Inr (False,
          case stopCh st of
            None \<Rightarrow> st
          | Some c \<Rightarrow> st\<lparr>stopCh := None, closed := (closed st)[c := True],
                       seal_trace := seal_trace st @ [CloseCh c]\<rparr>)"
    by (simp add: taskLoop_step_def interrupt_seal_eq [OF r(2)])
  from r(1,3,4) l t e show ?thesis
    by blast
qed

theorem taskLoop_one_live_signal_witness:
  "taskLoop None
       [TaskCh \<lparr>block = NewBlock header0 [], createdAt = 1\<rparr>,
        TaskCh \<lparr>block = NewBlock header0 [tx_a1], createdAt = 2\<rparr>, SealExitCh,
        TaskCh \<lparr>block = NewBlock header0 [tx_a1], createdAt = 3\<rparr>] seal_init =
     Inr (False,
          \<lparr>stopCh = None, closed = [True, True],
           seal_trace = [MakeCh 0, GoSeal \<lparr>block = NewBlock header0 [], createdAt = 1\<rparr> 0,
                         CloseCh 0,
                         MakeCh 1, GoSeal \<lparr>block = NewBlock header0 [tx_a1], createdAt = 2\<rparr> 1,
                         CloseCh 1]\<rparr>)"
  using taskLoop_one_live_signal
    [of None "[TaskCh \<lparr>block = NewBlock header0 [], createdAt = 1\<rparr>,
        TaskCh \<lparr>block = NewBlock header0 [tx_a1], createdAt = 2\<rparr>, SealExitCh,
        TaskCh \<lparr>block = NewBlock header0 [tx_a1], createdAt = 3\<rparr>]"]
  by (simp add: taskLoop_step_def interrupt_seal_def start_seal_def seal_emit_def seal_init_def Let_def)

end
